theory Spec2Isabelle
  imports Main
begin

section \<open>Values, errors and sources\<close>

text \<open>
  The library is untyped JavaScript: an element of a sequence is any value. The model
  keeps the three kinds of value the code itself produces or tests for: \<open>undefined\<close>,
  numbers and strings. A number is not-a-number, an integer or an infinity; fractions
  are outside the model. Counts and indices are integers.
\<close>

datatype jsnum = NaN | Num int | PosInfinity | NegInfinity

datatype val = VUndefined | VNum jsnum | VStr string

text \<open>
  Every \<open>throw new Error(msg)\<close> of the source is the value \<open>Error msg\<close>. The native
  \<open>new Array(n)\<close> throws a \<open>RangeError\<close> for a negative \<open>n\<close>.
\<close>

datatype error = Error string | RangeError string

text \<open>
  \<open>IterableType\<close>, widened to every value a caller can pass to the constructor.
  The raw sources are finite and can be iterated again and again with the same
  result; a string is a sequence of one-unit characters, so that iterating it and
  \<open>charAt\<close> see the same items. An array-like source is an object with a numeric
  \<open>length\<close>, indexed entries and an iterator that is not an array (\<open>arguments\<close>, a typed
  array); a sized source has a numeric \<open>size\<close> and an iterator (a \<open>Set\<close>).
  The private fields \<open>_src\<close>, \<open>_generator\<close>, \<open>_canSeek\<close>, \<open>_count\<close> and \<open>_tryGetAt\<close> of
  the class are the selectors \<open>p_src\<close>, ..., \<open>p_tryGetAt\<close>; a closure is a function of
  HOL, \<open>null\<close> is \<open>None\<close> and the object \<open>{ value: v }\<close> is \<open>Some v\<close>. The diagnostic
  flag \<open>_wasIterated\<close> is read by nothing in this file and the switch \<open>_useQuickSort\<close>
  only by the constructor, which copies it; both are left out. Of the values that are
  no source, \<open>SrcFalsy\<close> is a falsy value other than the empty string, \<open>SrcNonIterable\<close>
  a truthy value without iterator that is not a function, and \<open>SrcPlainFunction\<close> a
  function that is not a generator function.
\<close>

datatype source =
    SrcFalsy
  | SrcNonIterable
  | SrcPlainFunction
  | SrcString string
  | SrcArray "val list"
  | SrcArrayLike "val list"
  | SrcSized "val list"
  | SrcIterable "val list"
  | SrcGenFn "unit \<Rightarrow> val list"
  | SrcEnumerable enumerable
and enumerable =
    Enumerable (p_src: source) (p_generator: "unit \<Rightarrow> val list") (p_canSeek: bool)
      (p_count: "(unit \<Rightarrow> int) option") (p_tryGetAt: "(int \<Rightarrow> val option) option")

text \<open>The host's view of a value: \<open>if (src)\<close>, \<open>src[Symbol.iterator]\<close>, \<open>typeof\<close>.\<close>

fun truthy :: "source \<Rightarrow> bool" where
  "truthy SrcFalsy = False"
| "truthy (SrcString s) = (s \<noteq> [])"
| "truthy _ = True"

fun has_iterator :: "source \<Rightarrow> bool" where
  "has_iterator SrcFalsy = False"
| "has_iterator SrcNonIterable = False"
| "has_iterator SrcPlainFunction = False"
| "has_iterator (SrcGenFn g) = False"
| "has_iterator _ = True"

fun is_generator_function :: "source \<Rightarrow> bool" where
  "is_generator_function (SrcGenFn g) = True"
| "is_generator_function _ = False"

text \<open>\<open>s.charAt(i)\<close>: the empty string outside the string.\<close>

definition charAt :: "string \<Rightarrow> int \<Rightarrow> val" where
  "charAt s i = (if 0 \<le> i \<and> i < int (length s) then VStr [s ! nat i] else VStr [])"

text \<open>\<open>src[index]\<close> on an array or an array-like object: \<open>undefined\<close> outside it.\<close>

definition index_of :: "val list \<Rightarrow> int \<Rightarrow> val" where
  "index_of xs i = (if 0 \<le> i \<and> i < int (length xs) then xs ! nat i else VUndefined)"

section \<open>Construction\<close>

definition ensureIterable :: "source \<Rightarrow> error + unit" where
  "ensureIterable s =
     (if truthy s \<and> (has_iterator s \<or> is_generator_function s) then Inr ()
      else Inl (Error ''the argument must be iterable!''))"

text \<open>
  What \<open>src[Symbol.iterator].bind(src)\<close> yields when called; for a generator function
  the source itself is the generator.
\<close>

fun src_iterator :: "source \<Rightarrow> unit \<Rightarrow> val list" where
  "src_iterator (SrcString s) = (\<lambda>_. map (\<lambda>c. VStr [c]) s)"
| "src_iterator (SrcArray xs) = (\<lambda>_. xs)"
| "src_iterator (SrcArrayLike xs) = (\<lambda>_. xs)"
| "src_iterator (SrcSized xs) = (\<lambda>_. xs)"
| "src_iterator (SrcIterable xs) = (\<lambda>_. xs)"
| "src_iterator (SrcGenFn g) = g"
| "src_iterator (SrcEnumerable e) = p_generator e"
| "src_iterator _ = (\<lambda>_. [])"

definition constructor :: "source \<Rightarrow> error + enumerable" where
  "constructor s =
     (case ensureIterable s of
        Inl e \<Rightarrow> Inl e
      | Inr _ \<Rightarrow> Inr (Enumerable s (src_iterator s) False None None))"

definition from_enum :: "source \<Rightarrow> error + enumerable" where
  "from_enum iterable =
     (case iterable of SrcEnumerable e \<Rightarrow> Inr e | _ \<Rightarrow> constructor iterable)"

text \<open>\<open>new Enumerable(gen)\<close> for a generator function \<open>gen\<close>, which always passes the check.\<close>

definition new_Enumerable :: "(unit \<Rightarrow> val list) \<Rightarrow> enumerable" where
  "new_Enumerable gen = Enumerable (SrcGenFn gen) gen False None None"

text \<open>\<open>for (const item of enumerable)\<close>: \<open>[Symbol.iterator]()\<close> calls the generator.\<close>

definition iterate :: "enumerable \<Rightarrow> val list" where
  "iterate e = p_generator e ()"

section \<open>The capability resolvers\<close>

text \<open>The loop \<open>let x = 0; for (const item of enumerable) x++; return x\<close>.\<close>

fun count_scan :: "int \<Rightarrow> val list \<Rightarrow> int" where
  "count_scan x [] = x"
| "count_scan x (item # rest) = count_scan (x + 1) rest"

text \<open>The loop of the scanning indexer: the item at position \<open>index\<close>, counting from \<open>x\<close>.\<close>

fun scan_at :: "int \<Rightarrow> int \<Rightarrow> val list \<Rightarrow> val option" where
  "scan_at index x [] = None"
| "scan_at index x (item # rest) =
     (if index = x then Some item else scan_at index (x + 1) rest)"

text \<open>
  A resolver writes to the handle it is given, and to the inner handle when the source
  is one: it returns the handle as written, the inner one stored back as the source.
  The tests of the source come in the order of the code: an inner handle; a numeric
  \<open>length\<close> on a value that is not a function (a string, an array, an array-like
  object); a numeric \<open>size\<close>; and the scan for everything else (an iterable with
  neither, a generator function, and the values the constructor refuses). The call
  \<open>innerEnumerable._count!()\<close> is \<open>the (p_count inner) ()\<close>: the field is set by then
  (\<open>ensureInternalCount_resolved\<close>, \<open>ensureInternalTryGetAt_resolved\<close>).
\<close>

fun ensureInternalCount :: "enumerable \<Rightarrow> enumerable" where
  "ensureInternalCount (Enumerable s g cs c t) =
     (if c \<noteq> None then Enumerable s g cs c t
      else case s of
        SrcEnumerable innerEnumerable \<Rightarrow>
          (let inner = ensureInternalCount innerEnumerable
           in Enumerable (SrcEnumerable inner) g cs (Some (\<lambda>_. the (p_count inner) ())) t)
      | SrcString str \<Rightarrow> Enumerable s g cs (Some (\<lambda>_. int (length str))) t
      | SrcArray xs \<Rightarrow> Enumerable s g cs (Some (\<lambda>_. int (length xs))) t
      | SrcArrayLike xs \<Rightarrow> Enumerable s g cs (Some (\<lambda>_. int (length xs))) t
      | SrcSized xs \<Rightarrow> Enumerable s g cs (Some (\<lambda>_. int (length xs))) t
      | _ \<Rightarrow> Enumerable s g cs (Some (\<lambda>_. count_scan 0 (g ()))) t)"

fun ensureInternalTryGetAt :: "enumerable \<Rightarrow> enumerable" where
  "ensureInternalTryGetAt (Enumerable s g cs c t) =
     (if t \<noteq> None then Enumerable s g cs c t
      else case s of
        SrcEnumerable innerEnumerable \<Rightarrow>
          (let inner = ensureInternalTryGetAt innerEnumerable
           in Enumerable (SrcEnumerable inner) g (p_canSeek inner) c
                (Some (\<lambda>index. the (p_tryGetAt inner) index)))
      | SrcString str \<Rightarrow>
          Enumerable s g True c
            (Some (\<lambda>index. if index < int (length str) then Some (charAt str index) else None))
      | SrcArray xs \<Rightarrow>
          Enumerable s g True c
            (Some (\<lambda>index. if index \<ge> 0 \<and> index < int (length xs)
                            then Some (index_of xs index) else None))
      | SrcArrayLike xs \<Rightarrow>
          Enumerable s g True c
            (Some (\<lambda>index. if index < int (length xs) \<and> index_of xs index \<noteq> VUndefined
                            then Some (index_of xs index) else None))
      | _ \<Rightarrow> Enumerable s g False c (Some (\<lambda>index. scan_at index 0 (g ()))))"

section \<open>The operation set\<close>

text \<open>
  A method first resolves its receiver and then reads it; what it returns is a
  function of the receiver here, since the resolvers are the only writers of a
  handle's fields once it is built and resolving changes no result
  (\<open>count_ensureInternalTryGetAt\<close>, \<open>lookup_ensureInternalCount\<close>). An operation returns a
  new handle over a generator function, on which it sets the fields the code assigns;
  a closure it installs holds the receiver as resolved by the operation, where the
  code holds a reference to it.
\<close>

definition set_canSeek :: "bool \<Rightarrow> enumerable \<Rightarrow> enumerable" where
  "set_canSeek b e = Enumerable (p_src e) (p_generator e) b (p_count e) (p_tryGetAt e)"

definition set_count :: "(unit \<Rightarrow> int) option \<Rightarrow> enumerable \<Rightarrow> enumerable" where
  "set_count c e = Enumerable (p_src e) (p_generator e) (p_canSeek e) c (p_tryGetAt e)"

definition set_tryGetAt :: "(int \<Rightarrow> val option) option \<Rightarrow> enumerable \<Rightarrow> enumerable" where
  "set_tryGetAt t e = Enumerable (p_src e) (p_generator e) (p_canSeek e) (p_count e) t"

definition count :: "enumerable \<Rightarrow> int" where
  "count this = the (p_count (ensureInternalCount this)) ()"

definition length_enum :: "enumerable \<Rightarrow> error + int" where
  "length_enum this =
     (if \<not> p_canSeek (ensureInternalTryGetAt this)
      then Inl (Error ''Calling length on this enumerable will iterate it. Use count()'')
      else Inr (count this))"

definition elementAt :: "enumerable \<Rightarrow> int \<Rightarrow> error + val" where
  "elementAt this index =
     (case the (p_tryGetAt (ensureInternalTryGetAt this)) index of
        None \<Rightarrow> Inl (Error ''Index out of range'')
      | Some v \<Rightarrow> Inr v)"

definition elementAtOrDefault :: "enumerable \<Rightarrow> int \<Rightarrow> val" where
  "elementAtOrDefault this index =
     (case the (p_tryGetAt (ensureInternalTryGetAt this)) index of
        None \<Rightarrow> VUndefined
      | Some v \<Rightarrow> v)"

definition empty_enum :: enumerable where
  "empty_enum =
     set_canSeek True (set_tryGetAt (Some (\<lambda>index. None)) (set_count (Some (\<lambda>_. 0))
       (Enumerable (SrcArray []) (src_iterator (SrcArray [])) False None None)))"

text \<open>
  The items of \<open>range\<close> are \<open>start + i\<close>, in integers: what the host computes as
  long as the sums stay within the integers that doubles hold exactly.
\<close>

function range_gen :: "int \<Rightarrow> int \<Rightarrow> int \<Rightarrow> val list" where
  "range_gen start cnt i =
     (if i < cnt then VNum (Num (start + i)) # range_gen start cnt (i + 1) else [])"
  by pat_completeness auto
termination
  by (relation "measure (\<lambda>(start, cnt, i). nat (cnt - i))") auto

declare range_gen.simps [simp del]

definition range_enum :: "int \<Rightarrow> int \<Rightarrow> enumerable" where
  "range_enum start cnt =
     set_canSeek True
       (set_tryGetAt
          (Some (\<lambda>index. if index \<ge> 0 \<and> index < cnt then Some (VNum (Num (start + index)))
                          else None))
          (set_count (Some (\<lambda>_. cnt)) (new_Enumerable (\<lambda>_. range_gen start cnt 0))))"

function repeat_gen :: "val \<Rightarrow> int \<Rightarrow> int \<Rightarrow> val list" where
  "repeat_gen item cnt i = (if i < cnt then item # repeat_gen item cnt (i + 1) else [])"
  by pat_completeness auto
termination
  by (relation "measure (\<lambda>(item, cnt, i). nat (cnt - i))") auto

declare repeat_gen.simps [simp del]

definition repeat :: "val \<Rightarrow> int \<Rightarrow> enumerable" where
  "repeat item cnt =
     set_canSeek True
       (set_tryGetAt (Some (\<lambda>index. if index \<ge> 0 \<and> index < cnt then Some item else None))
          (set_count (Some (\<lambda>_. cnt)) (new_Enumerable (\<lambda>_. repeat_gen item cnt 0))))"

definition concat_enum :: "enumerable \<Rightarrow> source \<Rightarrow> error + enumerable" where
  "concat_enum self iterable =
     (case ensureIterable iterable of
        Inl e \<Rightarrow> Inl e
      | Inr _ \<Rightarrow>
         (case from_enum iterable of
            Inl e \<Rightarrow> Inl e
          | Inr other0 \<Rightarrow>
             (let gen = (\<lambda>_. iterate self @ iterate other0);
                  this = ensureInternalTryGetAt self;
                  other = ensureInternalTryGetAt other0;
                  result = set_canSeek (p_canSeek this \<and> p_canSeek other)
                             (set_count (Some (\<lambda>_. count this + count other))
                                (new_Enumerable gen))
              in Inr (if p_canSeek this
                      then set_tryGetAt
                             (Some (\<lambda>index.
                                case the (p_tryGetAt this) index of
                                  Some v \<Rightarrow> Some v
                                | None \<Rightarrow> the (p_tryGetAt other) (index - count this)))
                             result
                      else result))))"

text \<open>
  A function argument as \<open>_ensureFunction\<close> and \<open>if (comparer)\<close> see it: a falsy value
  (the argument left out), a truthy value that is not a function, or a function.
\<close>

datatype 'f arg = Missing | NotFunction | Fn 'f

definition ensureFunction :: "'f arg \<Rightarrow> error + 'f" where
  "ensureFunction f =
     (case f of Fn g \<Rightarrow> Inr g | _ \<Rightarrow> Inl (Error ''the argument needs to be a function!''))"

text \<open>
  A selector takes the item and the index; called with one argument, its index is
  \<open>undefined\<close>.
\<close>

type_synonym selector = "val \<Rightarrow> val \<Rightarrow> val"

fun select_gen :: "selector \<Rightarrow> int \<Rightarrow> val list \<Rightarrow> val list" where
  "select_gen selector index [] = []"
| "select_gen selector index (item # rest) =
     selector item (VNum (Num index)) # select_gen selector (index + 1) rest"

definition select :: "enumerable \<Rightarrow> selector arg \<Rightarrow> error + enumerable" where
  "select self f =
     (case ensureFunction f of
        Inl e \<Rightarrow> Inl e
      | Inr selector \<Rightarrow>
         (let gen = (\<lambda>_. select_gen selector 0 (iterate self));
              this = ensureInternalTryGetAt (ensureInternalCount self)
          in Inr (set_tryGetAt
                    (Some (\<lambda>index. case the (p_tryGetAt this) index of
                                      None \<Rightarrow> None
                                    | Some v \<Rightarrow> Some (selector v VUndefined)))
                    (set_canSeek (p_canSeek this)
                       (set_count (p_count this) (new_Enumerable gen))))))"

fun skip_gen :: "int \<Rightarrow> val list \<Rightarrow> val list" where
  "skip_gen nrLeft [] = []"
| "skip_gen nrLeft (item # rest) =
     (if nrLeft > 0 then skip_gen (nrLeft - 1) rest else item # skip_gen nrLeft rest)"

definition skip :: "enumerable \<Rightarrow> int \<Rightarrow> enumerable" where
  "skip self nr =
     (let gen = (\<lambda>_. skip_gen nr (iterate self));
          this = ensureInternalTryGetAt self
      in set_tryGetAt (Some (\<lambda>index. the (p_tryGetAt this) (index + nr)))
           (set_canSeek (p_canSeek this)
              (set_count (Some (\<lambda>_. max 0 (count this - nr))) (new_Enumerable gen))))"

fun take_gen :: "int \<Rightarrow> val list \<Rightarrow> val list" where
  "take_gen nrLeft [] = []"
| "take_gen nrLeft (item # rest) =
     (if nrLeft > 0
      then item # (if nrLeft - 1 \<le> 0 then [] else take_gen (nrLeft - 1) rest)
      else [])"

definition take_enum :: "enumerable \<Rightarrow> int \<Rightarrow> enumerable" where
  "take_enum self nr =
     (let gen = (\<lambda>_. take_gen nr (iterate self));
          this = ensureInternalTryGetAt self;
          result = set_canSeek (p_canSeek this)
                     (set_count (Some (\<lambda>_. min nr (count this))) (new_Enumerable gen))
      in if p_canSeek this
         then set_tryGetAt
                (Some (\<lambda>index. if index \<ge> nr then None else the (p_tryGetAt this) index))
                result
         else result)"

definition splice_enum :: "enumerable \<Rightarrow> int \<Rightarrow> int \<Rightarrow> val list \<Rightarrow> error + enumerable" where
  "splice_enum this start howmany newItems =
     (case concat_enum (take_enum this start) (SrcArray newItems) of
        Inl e \<Rightarrow> Inl e
      | Inr front \<Rightarrow> concat_enum front (SrcEnumerable (skip this (start + howmany))))"

type_synonym filter = "val \<Rightarrow> val \<Rightarrow> bool"

fun where_gen :: "filter \<Rightarrow> int \<Rightarrow> val list \<Rightarrow> val list" where
  "where_gen condition index [] = []"
| "where_gen condition index (item # rest) =
     (if condition item (VNum (Num index))
      then item # where_gen condition (index + 1) rest
      else where_gen condition (index + 1) rest)"

definition where_enum :: "enumerable \<Rightarrow> filter arg \<Rightarrow> error + enumerable" where
  "where_enum self f =
     (case ensureFunction f of
        Inl e \<Rightarrow> Inl e
      | Inr condition \<Rightarrow> Inr (new_Enumerable (\<lambda>_. where_gen condition 0 (iterate self))))"

text \<open>
  \<open>distinct\<close> with no comparer collects the items in a \<open>Set\<close>, whose membership is
  equality of values here; with a comparer each item is compared with every item
  seen before it.
\<close>

type_synonym equality = "val \<Rightarrow> val \<Rightarrow> bool"

fun distinct_set_gen :: "val set \<Rightarrow> val list \<Rightarrow> val list" where
  "distinct_set_gen distinctValues [] = []"
| "distinct_set_gen distinctValues (item # rest) =
     (if item \<notin> distinctValues
      then item # distinct_set_gen (insert item distinctValues) rest
      else distinct_set_gen (insert item distinctValues) rest)"

fun distinct_cmp_gen :: "equality \<Rightarrow> val list \<Rightarrow> val list \<Rightarrow> val list" where
  "distinct_cmp_gen equalityComparer vals [] = []"
| "distinct_cmp_gen equalityComparer vals (item # rest) =
     (if \<not> list_ex (\<lambda>v. equalityComparer item v) vals
      then item # distinct_cmp_gen equalityComparer (vals @ [item]) rest
      else distinct_cmp_gen equalityComparer (vals @ [item]) rest)"

definition distinct_enum :: "enumerable \<Rightarrow> equality option \<Rightarrow> enumerable" where
  "distinct_enum self equalityComparer =
     (case equalityComparer of
        None \<Rightarrow> new_Enumerable (\<lambda>_. distinct_set_gen {} (iterate self))
      | Some eq \<Rightarrow> new_Enumerable (\<lambda>_. distinct_cmp_gen eq [] (iterate self)))"

text \<open>
  \<open>toArray\<close>: a seekable handle fills \<open>new Array(this.count())\<close> by index, an entry with
  no value becoming \<open>undefined\<close>; any other handle is iterated into an array that grows
  by 64 and is cut to its size at the end.
\<close>

function fill_array :: "(int \<Rightarrow> val option) \<Rightarrow> val list \<Rightarrow> nat \<Rightarrow> val list" where
  "fill_array tryGetAt arr i =
     (if i < length arr
      then fill_array tryGetAt
             (arr[i := (case tryGetAt (int i) of None \<Rightarrow> VUndefined | Some v \<Rightarrow> v)]) (i + 1)
      else arr)"
  by pat_completeness auto
termination
  by (relation "measure (\<lambda>(tryGetAt, arr, i). length arr - i)") auto

declare fill_array.simps [simp del]

fun grow_array :: "val list \<Rightarrow> nat \<Rightarrow> val list \<Rightarrow> val list \<times> nat" where
  "grow_array arr sz [] = (arr, sz)"
| "grow_array arr sz (item # rest) =
     (let arr1 = (if sz = length arr then arr @ replicate 64 VUndefined else arr)
      in grow_array (arr1[sz := item]) (sz + 1) rest)"

definition toArray :: "enumerable \<Rightarrow> error + val list" where
  "toArray self =
     (let this = ensureInternalTryGetAt self
      in if p_canSeek this
         then (if count this < 0 then Inl (RangeError ''Invalid array length'')
               else Inr (fill_array (the (p_tryGetAt this))
                           (replicate (nat (count this)) VUndefined) 0))
         else (case grow_array [] 0 (iterate this) of (arr, sz) \<Rightarrow> Inr (take sz arr)))"

definition toList :: "enumerable \<Rightarrow> error + enumerable" where
  "toList self =
     (let this = ensureInternalTryGetAt self
      in if p_canSeek this then Inr this
         else (case toArray this of
                 Inl e \<Rightarrow> Inl e
               | Inr arr \<Rightarrow> from_enum (SrcArray arr)))"

definition first :: "enumerable \<Rightarrow> error + val" where
  "first this = elementAt this 0"

definition firstOrDefault :: "enumerable \<Rightarrow> val" where
  "firstOrDefault this = elementAtOrDefault this 0"

section \<open>Aggregates\<close>

text \<open>
  The host's \<open><\<close> on two values: two strings are compared unit by unit; otherwise both
  sides are converted to numbers and a not-a-number side makes the comparison false.
  The conversion of a string to a number is the host's and is the parameter \<open>s2n\<close>.
  A comparer is what \<open>stats\<close> calls: the comparer given, or \<open>_defaultComparer\<close> when
  none is.
\<close>

fun str_less :: "string \<Rightarrow> string \<Rightarrow> bool" where
  "str_less [] [] = False"
| "str_less [] (y # ys) = True"
| "str_less (x # xs) [] = False"
| "str_less (x # xs) (y # ys) =
     ((of_char x :: nat) < of_char y \<or> (x = y \<and> str_less xs ys))"

fun host_number :: "(string \<Rightarrow> jsnum) \<Rightarrow> val \<Rightarrow> jsnum" where
  "host_number s2n VUndefined = NaN"
| "host_number s2n (VNum n) = n"
| "host_number s2n (VStr s) = s2n s"

fun num_less :: "jsnum \<Rightarrow> jsnum \<Rightarrow> bool" where
  "num_less NaN b = False"
| "num_less a NaN = False"
| "num_less (Num a) (Num b) = (a < b)"
| "num_less (Num a) PosInfinity = True"
| "num_less NegInfinity (Num b) = True"
| "num_less NegInfinity PosInfinity = True"
| "num_less a b = False"

fun js_less :: "(string \<Rightarrow> jsnum) \<Rightarrow> val \<Rightarrow> val \<Rightarrow> bool" where
  "js_less s2n (VStr a) (VStr b) = str_less a b"
| "js_less s2n a b = num_less (host_number s2n a) (host_number s2n b)"

type_synonym comparer = "val \<Rightarrow> val \<Rightarrow> int"

definition defaultComparer :: "(string \<Rightarrow> jsnum) \<Rightarrow> comparer" where
  "defaultComparer s2n item1 item2 =
     (if js_less s2n item2 item1 then 1
      else if js_less s2n item1 item2 then - 1
      else 0)"

datatype stats_agg = Agg (agg_count: int) (agg_min: val) (agg_max: val)

fun stats_loop :: "comparer \<Rightarrow> stats_agg \<Rightarrow> val list \<Rightarrow> stats_agg" where
  "stats_loop comparer agg [] = agg"
| "stats_loop comparer agg (item # rest) =
     stats_loop comparer
       (Agg (agg_count agg + 1)
          (if agg_min agg = VUndefined \<or> comparer item (agg_min agg) < 0
           then item else agg_min agg)
          (if agg_max agg = VUndefined \<or> comparer item (agg_max agg) > 0
           then item else agg_max agg))
       rest"

definition stats :: "(string \<Rightarrow> jsnum) \<Rightarrow> enumerable \<Rightarrow> comparer arg \<Rightarrow> error + stats_agg" where
  "stats s2n this comparer =
     (case comparer of
        Missing \<Rightarrow> Inr (stats_loop (defaultComparer s2n) (Agg 0 VUndefined VUndefined) (iterate this))
      | NotFunction \<Rightarrow> Inl (Error ''the argument needs to be a function!'')
      | Fn c \<Rightarrow> Inr (stats_loop c (Agg 0 VUndefined VUndefined) (iterate this)))"

definition min_enum :: "(string \<Rightarrow> jsnum) \<Rightarrow> enumerable \<Rightarrow> comparer arg \<Rightarrow> error + val" where
  "min_enum s2n this comparer =
     (case stats s2n this comparer of
        Inl e \<Rightarrow> Inl e
      | Inr st \<Rightarrow> Inr (if agg_count st = 0 then VUndefined else agg_min st))"

definition max_enum :: "(string \<Rightarrow> jsnum) \<Rightarrow> enumerable \<Rightarrow> comparer arg \<Rightarrow> error + val" where
  "max_enum s2n this comparer =
     (case stats s2n this comparer of
        Inl e \<Rightarrow> Inl e
      | Inr st \<Rightarrow> Inr (if agg_count st = 0 then VUndefined else agg_max st))"

fun toNumber :: "val \<Rightarrow> jsnum" where
  "toNumber (VNum n) = n"
| "toNumber _ = NaN"

text \<open>
  The host's \<open>+\<close> on two numbers. The sum of two integers is a double, rounded by the
  host: it is the parameter \<open>host_plus\<close>. The rest is fixed by the arithmetic of doubles:
  not-a-number absorbs, opposite infinities give not-a-number, an infinity absorbs
  everything else.
\<close>

fun num_add :: "(int \<Rightarrow> int \<Rightarrow> jsnum) \<Rightarrow> jsnum \<Rightarrow> jsnum \<Rightarrow> jsnum" where
  "num_add host_plus NaN b = NaN"
| "num_add host_plus a NaN = NaN"
| "num_add host_plus (Num a) (Num b) = host_plus a b"
| "num_add host_plus PosInfinity NegInfinity = NaN"
| "num_add host_plus NegInfinity PosInfinity = NaN"
| "num_add host_plus PosInfinity b = PosInfinity"
| "num_add host_plus a PosInfinity = PosInfinity"
| "num_add host_plus NegInfinity b = NegInfinity"
| "num_add host_plus a NegInfinity = NegInfinity"

datatype sum_agg = SumAgg (agg_sum: jsnum) (sum_count: int)

fun sum_loop :: "(int \<Rightarrow> int \<Rightarrow> jsnum) \<Rightarrow> sum_agg \<Rightarrow> val list \<Rightarrow> sum_agg" where
  "sum_loop host_plus agg [] = agg"
| "sum_loop host_plus agg (item # rest) =
     sum_loop host_plus
       (SumAgg (if sum_count agg = 0 then toNumber item
                else num_add host_plus (agg_sum agg) (toNumber item))
          (sum_count agg + 1))
       rest"

definition sumAndCount :: "(int \<Rightarrow> int \<Rightarrow> jsnum) \<Rightarrow> enumerable \<Rightarrow> sum_agg" where
  "sumAndCount host_plus this = sum_loop host_plus (SumAgg (Num 0) 0) (iterate this)"

definition sum_enum :: "(int \<Rightarrow> int \<Rightarrow> jsnum) \<Rightarrow> enumerable \<Rightarrow> val" where
  "sum_enum host_plus this =
     (let st = sumAndCount host_plus this
      in if sum_count st = 0 then VUndefined else VNum (agg_sum st))"

section \<open>Reading a handle\<close>

text \<open>
  Every method calls \<open>_ensureInternalTryGetAt(this)\<close> before it reads \<open>_canSeek\<close> or
  \<open>_tryGetAt\<close>: these are the seek flag and the internal positional lookup as the
  methods see them.
\<close>

definition seekable :: "enumerable \<Rightarrow> bool" where
  "seekable e = p_canSeek (ensureInternalTryGetAt e)"

definition tryGetAt :: "enumerable \<Rightarrow> int \<Rightarrow> val option" where
  "tryGetAt e = the (p_tryGetAt (ensureInternalTryGetAt e))"

text \<open>A handle whose source is replaced, to state that a resolver does not look at it.\<close>

definition set_src :: "source \<Rightarrow> enumerable \<Rightarrow> enumerable" where
  "set_src s e = Enumerable s (p_generator e) (p_canSeek e) (p_count e) (p_tryGetAt e)"

text \<open>Running the next call on a result, an error ending the chain as an exception does.\<close>

definition and_then :: "error + 'a \<Rightarrow> ('a \<Rightarrow> error + 'b) \<Rightarrow> error + 'b" where
  "and_then r f = (case r of Inl e \<Rightarrow> Inl e | Inr x \<Rightarrow> f x)"

section \<open>The handles the library builds\<close>

text \<open>
  A handle is coherent when its count is the number of items it yields, its lookup
  finds nothing from the count on, and, if it is seekable, its lookup finds a value
  at every index below the count. The handles built by the constructor, the factories
  and the operations with counts that are not negative, over sources other than an
  array-like object holding \<open>undefined\<close>, are all coherent.
\<close>

definition coherent :: "enumerable \<Rightarrow> bool" where
  "coherent e \<longleftrightarrow>
     count e = int (length (iterate e)) \<and>
     (\<forall>index\<ge>count e. tryGetAt e index = None) \<and>
     (seekable e \<longrightarrow> (\<forall>index. 0 \<le> index \<and> index < count e \<longrightarrow> tryGetAt e index \<noteq> None))"

fun regular :: "source \<Rightarrow> bool" where
  "regular (SrcArrayLike xs) = (VUndefined \<notin> set xs)"
| "regular (SrcEnumerable e) = False"
| "regular _ = True"

inductive handle :: "enumerable \<Rightarrow> bool" where
  h_new: "constructor s = Inr e \<Longrightarrow> regular s \<Longrightarrow> handle e"
| h_wrap: "handle inner \<Longrightarrow> constructor (SrcEnumerable inner) = Inr e \<Longrightarrow> handle e"
| h_empty: "handle empty_enum"
| h_range: "0 \<le> cnt \<Longrightarrow> handle (range_enum start cnt)"
| h_repeat: "0 \<le> cnt \<Longrightarrow> handle (repeat item cnt)"
| h_concat: "handle a \<Longrightarrow> from_enum iterable = Inr b \<Longrightarrow> handle b \<Longrightarrow>
             concat_enum a iterable = Inr e \<Longrightarrow> handle e"
| h_select: "handle a \<Longrightarrow> select a f = Inr e \<Longrightarrow> handle e"
| h_skip: "handle a \<Longrightarrow> 0 \<le> nr \<Longrightarrow> handle (skip a nr)"
| h_take: "handle a \<Longrightarrow> 0 \<le> nr \<Longrightarrow> handle (take_enum a nr)"
| h_where: "handle a \<Longrightarrow> where_enum a f = Inr e \<Longrightarrow> handle e"
| h_distinct: "handle a \<Longrightarrow> handle (distinct_enum a cmp)"
| h_toList: "handle a \<Longrightarrow> toList a = Inr e \<Longrightarrow> handle e"
| h_count: "handle a \<Longrightarrow> handle (ensureInternalCount a)"
| h_tryGetAt: "handle a \<Longrightarrow> handle (ensureInternalTryGetAt a)"

text \<open>What a seekable handle materialises as: its lookups from 0 up to its count.\<close>

definition lookup_view :: "enumerable \<Rightarrow> val list" where
  "lookup_view e =
     map (\<lambda>k. case tryGetAt e (int k) of None \<Rightarrow> VUndefined | Some v \<Rightarrow> v)
       [0..<nat (count e)]"

section \<open>The native splice\<close>

text \<open>
  \<open>Array.prototype.splice(start, deleteCount, ...items)\<close> on a copy of \<open>xs\<close>, as the
  language defines it: a negative start counts from the end, a start beyond the end
  is the end, and the delete count is cut to what is left.
\<close>

definition native_splice :: "int \<Rightarrow> int \<Rightarrow> val list \<Rightarrow> val list \<Rightarrow> val list" where
  "native_splice start deleteCount items xs =
     (let len = int (length xs);
          actualStart = (if start < 0 then max (len + start) 0 else min start len);
          actualDeleteCount = min (max deleteCount 0) (len - actualStart)
      in take (nat actualStart) xs @ items @ drop (nat (actualStart + actualDeleteCount)) xs)"

section \<open>The loops\<close>

lemma count_scan_eq: "count_scan x xs = x + int (length xs)"
  by (induction xs arbitrary: x) auto

lemma scan_at_eq:
  "scan_at index x xs =
     (if x \<le> index \<and> index < x + int (length xs) then Some (xs ! nat (index - x)) else None)"
proof (induction xs arbitrary: x)
  case Nil
  then show ?case by simp
next
  case (Cons item rest)
  show ?case
  proof (cases "index = x")
    case True
    then show ?thesis by simp
  next
    case False
    have "nat (index - x) = Suc (nat (index - (x + 1)))" if "x < index"
      using that by simp
    with False Cons show ?thesis by auto
  qed
qed

lemma take_gen_eq: "take_gen nr xs = take (nat nr) xs"
proof (induction xs arbitrary: nr)
  case Nil
  then show ?case by simp
next
  case (Cons item rest)
  show ?case
  proof (cases "nr > 0")
    case True
    then have "nat nr = Suc (nat (nr - 1))" by simp
    with True Cons show ?thesis by auto
  next
    case False
    then show ?thesis by simp
  qed
qed

lemma skip_gen_eq: "skip_gen nr xs = drop (nat nr) xs"
proof (induction xs arbitrary: nr)
  case Nil
  then show ?case by simp
next
  case (Cons item rest)
  show ?case
  proof (cases "nr > 0")
    case True
    then have "nat nr = Suc (nat (nr - 1))" by simp
    with True Cons show ?thesis by auto
  next
    case False
    with Cons show ?thesis by simp
  qed
qed

lemma length_select_gen: "length (select_gen f i xs) = length xs"
  by (induction xs arbitrary: i) auto

lemma select_gen_nth:
  "n < length xs \<Longrightarrow> select_gen f i xs ! n = f (xs ! n) (VNum (Num (i + int n)))"
proof (induction xs arbitrary: i n)
  case Nil
  then show ?case by simp
next
  case (Cons item rest)
  then show ?case by (cases n) (auto simp: algebra_simps)
qed

lemma range_gen_eq: "range_gen start cnt i = map (\<lambda>k. VNum (Num (start + k))) [i..cnt - 1]"
proof (induction start cnt i rule: range_gen.induct)
  case (1 start cnt i)
  show ?case
  proof (cases "i < cnt")
    case True
    then have "[i..cnt - 1] = i # [i + 1..cnt - 1]"
      by (simp add: upto_rec1)
    with True 1 show ?thesis
      by (subst range_gen.simps) simp
  next
    case False
    then show ?thesis
      by (subst range_gen.simps) simp
  qed
qed

lemma repeat_gen_eq: "repeat_gen item cnt i = replicate (nat (cnt - i)) item"
proof (induction item cnt i rule: repeat_gen.induct)
  case (1 item cnt i)
  show ?case
  proof (cases "i < cnt")
    case True
    then have "nat (cnt - i) = Suc (nat (cnt - (i + 1)))" by simp
    with True 1 show ?thesis
      by (subst repeat_gen.simps) simp
  next
    case False
    then show ?thesis
      by (subst repeat_gen.simps) simp
  qed
qed

lemma fill_array_eq:
  "i \<le> length arr \<Longrightarrow>
   fill_array f arr i =
     take i arr @ map (\<lambda>k. case f (int k) of None \<Rightarrow> VUndefined | Some v \<Rightarrow> v) [i..<length arr]"
proof (induction f arr i rule: fill_array.induct)
  case (1 f arr i)
  show ?case
  proof (cases "i < length arr")
    case True
    let ?v = "case f (int i) of None \<Rightarrow> VUndefined | Some v \<Rightarrow> v"
    have "fill_array f arr i = fill_array f (arr[i := ?v]) (i + 1)"
      using True by (subst fill_array.simps) simp
    also have "\<dots> = take (i + 1) (arr[i := ?v]) @
        map (\<lambda>k. case f (int k) of None \<Rightarrow> VUndefined | Some v \<Rightarrow> v) [i + 1..<length arr]"
      using True 1 by simp
    also have "take (i + 1) (arr[i := ?v]) = take i arr @ [?v]"
      using True by (simp add: take_Suc_conv_app_nth)
    finally show ?thesis
      using True by (simp add: upt_conv_Cons)
  next
    case False
    with 1(2) show ?thesis
      by (subst fill_array.simps) simp
  qed
qed

lemma grow_array_eq:
  "sz \<le> length arr \<Longrightarrow> grow_array arr sz xs = (arr', sz') \<Longrightarrow>
   sz' = sz + length xs \<and> sz' \<le> length arr' \<and> take sz' arr' = take sz arr @ xs"
proof (induction xs arbitrary: arr sz)
  case Nil
  then show ?case by simp
next
  case (Cons item rest)
  let ?arr1 = "if sz = length arr then arr @ replicate 64 VUndefined else arr"
  have lt: "sz < length ?arr1" using Cons.prems(1) by auto
  have step: "grow_array (?arr1[sz := item]) (sz + 1) rest = (arr', sz')"
    using Cons.prems(2) by (simp add: Let_def)
  have "sz + 1 \<le> length (?arr1[sz := item])" using lt by simp
  from Cons.IH[OF this step]
  have r: "sz' = sz + 1 + length rest" "sz' \<le> length arr'"
    "take sz' arr' = take (sz + 1) (?arr1[sz := item]) @ rest" by auto
  have "take (sz + 1) (?arr1[sz := item]) = take sz ?arr1 @ [item]"
    using lt by (simp add: take_Suc_conv_app_nth)
  moreover have "take sz ?arr1 = take sz arr" using Cons.prems(1) by simp
  ultimately show ?case using r by simp
qed

section \<open>Memoised resolution\<close>

lemma ensureInternalCount_resolved: "p_count (ensureInternalCount e) \<noteq> None"
  by (cases e) (simp add: Let_def split: source.splits)

lemma ensureInternalTryGetAt_resolved: "p_tryGetAt (ensureInternalTryGetAt e) \<noteq> None"
  by (cases e) (simp add: Let_def split: source.splits)

lemma ensureInternalCount_done: "p_count e \<noteq> None \<Longrightarrow> ensureInternalCount e = e"
  by (cases e) simp

lemma ensureInternalTryGetAt_done: "p_tryGetAt e \<noteq> None \<Longrightarrow> ensureInternalTryGetAt e = e"
  by (cases e) simp


lemma ensureInternalCount_fields [simp]:
  "p_generator (ensureInternalCount e) = p_generator e"
  "p_canSeek (ensureInternalCount e) = p_canSeek e"
  "p_tryGetAt (ensureInternalCount e) = p_tryGetAt e"
  by (cases e; simp add: Let_def split: source.splits)+

lemma ensureInternalTryGetAt_fields [simp]:
  "p_generator (ensureInternalTryGetAt e) = p_generator e"
  "p_count (ensureInternalTryGetAt e) = p_count e"
  by (cases e; simp add: Let_def split: source.splits)+

lemma iterate_ensure [simp]:
  "iterate (ensureInternalCount e) = iterate e"
  "iterate (ensureInternalTryGetAt e) = iterate e"
  by (simp_all add: iterate_def)

lemma ensureInternalCount_idem [simp]:
  "ensureInternalCount (ensureInternalCount e) = ensureInternalCount e"
  by (simp add: ensureInternalCount_done ensureInternalCount_resolved)

lemma ensureInternalTryGetAt_idem [simp]:
  "ensureInternalTryGetAt (ensureInternalTryGetAt e) = ensureInternalTryGetAt e"
  by (simp add: ensureInternalTryGetAt_done ensureInternalTryGetAt_resolved)

lemma count_resolved: "p_count e = Some f \<Longrightarrow> count e = f ()"
  by (cases e) (simp add: count_def)

lemma tryGetAt_resolved: "p_tryGetAt e = Some f \<Longrightarrow> tryGetAt e = f"
  by (cases e) (auto simp add: tryGetAt_def)

lemma seekable_resolved: "p_tryGetAt e = Some f \<Longrightarrow> seekable e = p_canSeek e"
  by (cases e) (auto simp add: seekable_def)

lemma count_ensureInternalCount [simp]: "count (ensureInternalCount e) = count e"
  by (simp add: count_def)

lemma tryGetAt_ensureInternalTryGetAt [simp]: "tryGetAt (ensureInternalTryGetAt e) = tryGetAt e"
  by (simp add: tryGetAt_def)

lemma seekable_ensureInternalTryGetAt [simp]: "seekable (ensureInternalTryGetAt e) = seekable e"
  by (simp add: seekable_def)

lemma count_ensureInternalTryGetAt [simp]: "count (ensureInternalTryGetAt e) = count e"
proof (induction e rule: ensureInternalTryGetAt.induct)
  case (1 s g cs c t)
  show ?case
  proof (cases "t = None \<and> c = None")
    case False
    then show ?thesis by (auto simp: count_def Let_def split: source.splits)
  next
    case True
    show ?thesis
    proof (cases s)
      case (SrcEnumerable inner)
      with True 1 show ?thesis by (simp add: count_def Let_def)
    qed (use True in \<open>simp_all add: count_def\<close>)
  qed
qed

lemma lookup_ensureInternalCount:
  "tryGetAt (ensureInternalCount e) = tryGetAt e \<and> seekable (ensureInternalCount e) = seekable e"
proof (induction e rule: ensureInternalCount.induct)
  case (1 s g cs c t)
  show ?case
  proof (cases "t = None \<and> c = None")
    case False
    then show ?thesis by (auto simp: tryGetAt_def seekable_def Let_def split: source.splits)
  next
    case True
    show ?thesis
    proof (cases s)
      case (SrcEnumerable inner)
      with True 1 show ?thesis by (simp add: tryGetAt_def seekable_def Let_def)
    qed (use True in \<open>simp_all add: tryGetAt_def seekable_def\<close>)
  qed
qed

section \<open>What each operation installs\<close>

lemma set_fields [simp]:
  "p_src (set_canSeek b e) = p_src e" "p_generator (set_canSeek b e) = p_generator e"
  "p_canSeek (set_canSeek b e) = b" "p_count (set_canSeek b e) = p_count e"
  "p_tryGetAt (set_canSeek b e) = p_tryGetAt e"
  "p_src (set_count c e) = p_src e" "p_generator (set_count c e) = p_generator e"
  "p_canSeek (set_count c e) = p_canSeek e" "p_count (set_count c e) = c"
  "p_tryGetAt (set_count c e) = p_tryGetAt e"
  "p_src (set_tryGetAt t e) = p_src e" "p_generator (set_tryGetAt t e) = p_generator e"
  "p_canSeek (set_tryGetAt t e) = p_canSeek e" "p_count (set_tryGetAt t e) = p_count e"
  "p_tryGetAt (set_tryGetAt t e) = t"
  by (simp_all add: set_canSeek_def set_count_def set_tryGetAt_def)

lemma new_Enumerable_fields [simp]:
  "p_src (new_Enumerable g) = SrcGenFn g" "p_generator (new_Enumerable g) = g"
  "p_canSeek (new_Enumerable g) = False" "p_count (new_Enumerable g) = None"
  "p_tryGetAt (new_Enumerable g) = None"
  by (simp_all add: new_Enumerable_def)

lemma iterate_set [simp]:
  "iterate (set_canSeek b e) = iterate e" "iterate (set_count c e) = iterate e"
  "iterate (set_tryGetAt t e) = iterate e" "iterate (new_Enumerable g) = g ()"
  by (simp_all add: iterate_def)

text \<open>A handle over a generator function whose indexer was never set.\<close>

lemma unresolved_gen:
  assumes "p_src e = SrcGenFn g" "p_tryGetAt e = None"
  shows "tryGetAt e = (\<lambda>index. scan_at index 0 (iterate e))" "\<not> seekable e"
  using assms by (cases e; simp add: tryGetAt_def seekable_def iterate_def)+

lemma unresolved_gen_count:
  assumes "p_src e = SrcGenFn g" "p_count e = None"
  shows "count e = int (length (iterate e))"
  using assms by (cases e) (simp add: count_def iterate_def count_scan_eq)

subsection \<open>skip\<close>

lemma skip_count: "count (skip a nr) = max 0 (count a - nr)"
  by (simp add: skip_def Let_def count_resolved)

lemma skip_tryGetAt: "tryGetAt (skip a nr) index = tryGetAt a (index + nr)"
  by (simp add: skip_def Let_def tryGetAt_resolved) (simp add: tryGetAt_def)

lemma skip_seekable: "seekable (skip a nr) = seekable a"
  by (simp add: skip_def Let_def seekable_resolved) (simp add: seekable_def)

lemma skip_iterate: "iterate (skip a nr) = drop (nat nr) (iterate a)"
  by (simp add: skip_def Let_def skip_gen_eq)

subsection \<open>take\<close>

lemma take_count: "count (take_enum a nr) = min nr (count a)"
  by (simp add: take_enum_def Let_def count_resolved)

lemma take_iterate: "iterate (take_enum a nr) = take (nat nr) (iterate a)"
  by (simp add: take_enum_def Let_def take_gen_eq)

lemma take_seekable: "seekable (take_enum a nr) = seekable a"
proof (cases "seekable a")
  case True
  then show ?thesis
    by (simp add: take_enum_def Let_def seekable_resolved) (simp add: seekable_def)
next
  case False
  then have "\<not> p_canSeek (ensureInternalTryGetAt a)" by (simp add: seekable_def)
  then have "\<not> seekable (take_enum a nr)"
    by (intro unresolved_gen(2)[where g = "\<lambda>_. take_gen nr (iterate a)"])
       (simp_all add: take_enum_def Let_def)
  with False show ?thesis by simp
qed

lemma take_tryGetAt:
  "tryGetAt (take_enum a nr) index =
     (if seekable a then (if index \<ge> nr then None else tryGetAt a index)
      else scan_at index 0 (take (nat nr) (iterate a)))"
proof (cases "seekable a")
  case True
  then show ?thesis
    by (simp add: take_enum_def Let_def tryGetAt_resolved seekable_def) (simp add: tryGetAt_def)
next
  case False
  then have ns: "\<not> p_canSeek (ensureInternalTryGetAt a)" by (simp add: seekable_def)
  have "tryGetAt (take_enum a nr) = (\<lambda>index. scan_at index 0 (iterate (take_enum a nr)))"
    by (rule unresolved_gen(1)[where g = "\<lambda>_. take_gen nr (iterate a)"])
       (use ns in \<open>simp_all add: take_enum_def Let_def\<close>)
  with False show ?thesis by (simp add: take_iterate)
qed

subsection \<open>concat\<close>

lemma concat_ok:
  assumes "from_enum iterable = Inr b" "ensureIterable iterable = Inr ()"
  shows "\<exists>r. concat_enum a iterable = Inr r"
  using assms by (simp add: concat_enum_def Let_def)

lemma from_enum_handle [simp]: "from_enum (SrcEnumerable b) = Inr b"
  by (simp add: from_enum_def)

lemma ensureIterable_handle [simp]: "ensureIterable (SrcEnumerable b) = Inr ()"
  by (simp add: ensureIterable_def)

lemma concat_facts:
  assumes "concat_enum a iterable = Inr r" "from_enum iterable = Inr b"
  shows "count r = count a + count b"
    and "iterate r = iterate a @ iterate b"
    and "seekable r = (seekable a \<and> seekable b)"
    and "tryGetAt r index =
           (if seekable a
            then (case tryGetAt a index of Some v \<Rightarrow> Some v
                  | None \<Rightarrow> tryGetAt b (index - count a))
            else scan_at index 0 (iterate a @ iterate b))"
proof -
  let ?slf = "ensureInternalTryGetAt a" and ?other = "ensureInternalTryGetAt b"
  let ?gen = "\<lambda>_::unit. iterate a @ iterate b"
  let ?base = "set_canSeek (p_canSeek ?slf \<and> p_canSeek ?other)
                 (set_count (Some (\<lambda>_. count ?slf + count ?other)) (new_Enumerable ?gen))"
  let ?f = "\<lambda>index. case the (p_tryGetAt ?slf) index of Some v \<Rightarrow> Some v
                     | None \<Rightarrow> the (p_tryGetAt ?other) (index - count ?slf)"
  have r: "r = (if p_canSeek ?slf then set_tryGetAt (Some ?f) ?base else ?base)"
    using assms by (auto simp add: concat_enum_def Let_def split: sum.splits)
  show "count r = count a + count b"
    by (simp add: r count_resolved)
  show "iterate r = iterate a @ iterate b"
    by (simp add: r)
  show "seekable r = (seekable a \<and> seekable b)"
  proof (cases "seekable a")
    case True
    then show ?thesis
      by (simp add: r seekable_resolved) (simp add: seekable_def)
  next
    case False
    then have ns: "\<not> p_canSeek ?slf" by (simp add: seekable_def)
    have "\<not> seekable r"
      by (rule unresolved_gen(2)[where g = ?gen]) (use ns in \<open>simp_all add: r\<close>)
    with False show ?thesis by simp
  qed
  show "tryGetAt r index =
           (if seekable a
            then (case tryGetAt a index of Some v \<Rightarrow> Some v
                  | None \<Rightarrow> tryGetAt b (index - count a))
            else scan_at index 0 (iterate a @ iterate b))"
  proof (cases "seekable a")
    case True
    then have "tryGetAt r = ?f"
      by (simp add: r tryGetAt_resolved seekable_def)
    with True show ?thesis by (simp add: tryGetAt_def split: option.splits)
  next
    case False
    then have ns: "\<not> p_canSeek ?slf" by (simp add: seekable_def)
    have "tryGetAt r = (\<lambda>index. scan_at index 0 (iterate r))"
      by (rule unresolved_gen(1)[where g = ?gen]) (use ns in \<open>simp_all add: r\<close>)
    with False show ?thesis by (simp add: r)
  qed
qed

subsection \<open>select\<close>

lemma select_facts:
  assumes "select a (Fn f) = Inr r"
  shows "count r = count a"
    and "iterate r = select_gen f 0 (iterate a)"
    and "seekable r = seekable a"
    and "tryGetAt r index =
           (case tryGetAt a index of None \<Rightarrow> None | Some v \<Rightarrow> Some (f v VUndefined))"
proof -
  let ?slf = "ensureInternalTryGetAt (ensureInternalCount a)"
  let ?g = "\<lambda>index. case the (p_tryGetAt ?slf) index of None \<Rightarrow> None
                     | Some v \<Rightarrow> Some (f v VUndefined)"
  have r: "r = set_tryGetAt (Some ?g) (set_canSeek (p_canSeek ?slf)
             (set_count (p_count ?slf) (new_Enumerable (\<lambda>_. select_gen f 0 (iterate a)))))"
    using assms by (simp add: select_def ensureFunction_def Let_def)
  obtain c where c: "p_count (ensureInternalCount a) = Some c"
    using ensureInternalCount_resolved[of a] by auto
  show "count r = count a"
    using c by (simp add: r count_resolved) (simp add: count_def)
  show "iterate r = select_gen f 0 (iterate a)"
    by (simp add: r)
  have s: "p_canSeek ?slf = seekable a"
    using lookup_ensureInternalCount[of a] by (simp add: seekable_def)
  show "seekable r = seekable a"
    by (simp add: r seekable_resolved s)
  have "the (p_tryGetAt ?slf) = tryGetAt a"
    using lookup_ensureInternalCount[of a] by (simp add: tryGetAt_def)
  then show "tryGetAt r index =
           (case tryGetAt a index of None \<Rightarrow> None | Some v \<Rightarrow> Some (f v VUndefined))"
    by (simp add: r tryGetAt_resolved)
qed

section \<open>Coherence\<close>

lemma scan_at_nth:
  "0 \<le> index \<Longrightarrow>
   scan_at index 0 xs = (if index < int (length xs) then Some (xs ! nat index) else None)"
  by (simp add: scan_at_eq)

lemma scan_at_beyond: "int (length xs) \<le> index \<Longrightarrow> scan_at index 0 xs = None"
  by (simp add: scan_at_eq)

lemma coherent_scanning:
  assumes "p_src e = SrcGenFn g" "p_tryGetAt e = None" "count e = int (length (iterate e))"
  shows "coherent e"
  using assms unresolved_gen[OF assms(1,2)] by (simp add: coherent_def scan_at_beyond)

lemma coherent_new_Enumerable: "coherent (new_Enumerable g)"
  by (rule coherent_scanning[where g = g]) (simp_all add: unresolved_gen_count[where g = g])

lemma coherent_constructor:
  assumes "constructor s = Inr e" "regular s"
  shows "coherent e"
proof -
  have e: "e = Enumerable s (src_iterator s) False None None" and ok: "ensureIterable s = Inr ()"
    using assms(1) by (auto simp: constructor_def split: sum.splits)
  show ?thesis
  proof (cases s)
    case (SrcString str)
    then show ?thesis
      by (simp add: e coherent_def count_def tryGetAt_def seekable_def iterate_def)
  next
    case (SrcArray xs)
    then show ?thesis
      by (simp add: e coherent_def count_def tryGetAt_def seekable_def iterate_def)
  next
    case (SrcArrayLike xs)
    then have "VUndefined \<notin> set xs" using assms(2) by simp
    then have "xs ! nat i \<noteq> VUndefined" if "0 \<le> i" "i < int (length xs)" for i
    proof -
      have "nat i < length xs" using that by simp
      then have "xs ! nat i \<in> set xs" by (rule nth_mem)
      with \<open>VUndefined \<notin> set xs\<close> show ?thesis by auto
    qed
    then show ?thesis using SrcArrayLike
      by (simp add: e coherent_def count_def tryGetAt_def seekable_def iterate_def index_of_def)
  next
    case (SrcSized xs)
    then show ?thesis
      by (simp add: e coherent_def count_def tryGetAt_def seekable_def iterate_def scan_at_beyond)
  next
    case (SrcIterable xs)
    then show ?thesis
      by (simp add: e coherent_def count_def tryGetAt_def seekable_def iterate_def
          scan_at_beyond count_scan_eq)
  next
    case (SrcGenFn g)
    then show ?thesis
      by (simp add: e coherent_def count_def tryGetAt_def seekable_def iterate_def
          scan_at_beyond count_scan_eq)
  next
    case (SrcEnumerable inner)
    then show ?thesis using assms(2) by simp
  qed (use ok in \<open>simp_all add: ensureIterable_def\<close>)
qed

lemma wrap_facts:
  assumes "constructor (SrcEnumerable inner) = Inr e"
  shows "count e = count inner" "tryGetAt e = tryGetAt inner" "iterate e = iterate inner"
    "seekable e = seekable inner"
proof -
  have e: "e = Enumerable (SrcEnumerable inner) (p_generator inner) False None None"
    using assms by (auto simp: constructor_def split: sum.splits)
  show "count e = count inner" "tryGetAt e = tryGetAt inner" "iterate e = iterate inner"
    "seekable e = seekable inner"
    by (simp_all add: e count_def tryGetAt_def iterate_def seekable_def Let_def)
qed

lemma coherent_wrap:
  assumes "coherent inner" "constructor (SrcEnumerable inner) = Inr e"
  shows "coherent e"
  using assms(1) by (simp add: coherent_def wrap_facts[OF assms(2)])

lemma coherent_empty: "coherent empty_enum"
  by (simp add: coherent_def empty_enum_def count_resolved tryGetAt_resolved)
     (simp add: iterate_def)

lemma coherent_range:
  assumes "0 \<le> cnt"
  shows "coherent (range_enum start cnt)"
  using assms
  by (simp add: coherent_def range_enum_def count_resolved tryGetAt_resolved range_gen_eq)

lemma coherent_repeat:
  assumes "0 \<le> cnt"
  shows "coherent (repeat item cnt)"
  using assms
  by (simp add: coherent_def repeat_def count_resolved tryGetAt_resolved repeat_gen_eq)

lemma coherent_skip:
  assumes "coherent a" "0 \<le> nr"
  shows "coherent (skip a nr)"
  using assms
  by (auto simp: coherent_def skip_count skip_tryGetAt skip_iterate skip_seekable)

lemma coherent_take:
  assumes "coherent a" "0 \<le> nr"
  shows "coherent (take_enum a nr)"
  using assms
  by (auto simp: coherent_def take_count take_tryGetAt take_iterate take_seekable
      scan_at_beyond min_def)

lemma coherent_concat:
  assumes "coherent a" "coherent b" "from_enum iterable = Inr b"
    "concat_enum a iterable = Inr e"
  shows "coherent e"
proof -
  note f = concat_facts[OF assms(4,3)]
  have ca: "count a = int (length (iterate a))" and cb: "count b = int (length (iterate b))"
    using assms(1,2) by (simp_all add: coherent_def)
  have "count e = int (length (iterate e))"
    by (simp add: f ca cb)
  moreover have "tryGetAt e index = None" if "count e \<le> index" for index
  proof (cases "seekable a")
    case True
    have "tryGetAt a index = None" "tryGetAt b (index - count a) = None"
      using that assms(1,2) ca cb by (simp_all add: coherent_def f(1))
    with True show ?thesis by (simp add: f(4))
  next
    case False
    with that show ?thesis by (simp add: f scan_at_beyond ca cb)
  qed
  moreover have "tryGetAt e index \<noteq> None"
    if "seekable e" "0 \<le> index" "index < count e" for index
  proof -
    have sa: "seekable a" and sb: "seekable b" using that(1) by (simp_all add: f(3))
    show ?thesis
    proof (cases "index < count a")
      case True
      then have "tryGetAt a index \<noteq> None"
        using assms(1) sa that(2) by (simp add: coherent_def)
      then show ?thesis using sa by (auto simp: f(4))
    next
      case False
      then have "tryGetAt a index = None" using assms(1) by (simp add: coherent_def)
      moreover have "tryGetAt b (index - count a) \<noteq> None"
        using assms(2) sb False that(3) by (simp add: coherent_def f(1))
      ultimately show ?thesis using sa by (simp add: f(4))
    qed
  qed
  ultimately show ?thesis by (simp add: coherent_def)
qed

lemma select_Inr:
  assumes "select a f = Inr e"
  obtains g where "f = Fn g"
  using assms by (cases f) (simp_all add: select_def ensureFunction_def)

lemma coherent_select:
  assumes "coherent a" "select a f = Inr e"
  shows "coherent e"
proof -
  obtain g where g: "f = Fn g" using assms(2) by (rule select_Inr)
  note f = select_facts[OF assms(2)[unfolded g]]
  show ?thesis
    using assms(1)
    by (auto simp: coherent_def f length_select_gen split: option.splits)
qed

lemma coherent_ensure:
  "coherent (ensureInternalCount a) = coherent a"
  "coherent (ensureInternalTryGetAt a) = coherent a"
  by (simp_all add: coherent_def lookup_ensureInternalCount)

lemma coherent_where:
  assumes "where_enum a f = Inr e"
  shows "coherent e"
  using assms
  by (auto simp: where_enum_def coherent_new_Enumerable split: sum.splits)

lemma coherent_distinct: "coherent (distinct_enum a cmp)"
  by (simp add: distinct_enum_def coherent_new_Enumerable split: option.splits)

text \<open>What \<open>toArray\<close> returns.\<close>

lemma toArray_iterating:
  assumes "\<not> seekable e"
  shows "toArray e = Inr (iterate e)"
proof -
  obtain arr sz where g: "grow_array [] 0 (iterate e) = (arr, sz)"
    by (cases "grow_array [] 0 (iterate e)")
  from grow_array_eq[OF _ g] have "take sz arr = iterate e" by auto
  with assms g show ?thesis by (simp add: toArray_def seekable_def Let_def)
qed

lemma toArray_seeking:
  assumes "seekable e" "0 \<le> count e"
  shows "toArray e =
           Inr (map (\<lambda>k. case tryGetAt e (int k) of None \<Rightarrow> VUndefined | Some v \<Rightarrow> v)
                  [0..<nat (count e)])"
  using assms by (simp add: toArray_def seekable_def Let_def fill_array_eq tryGetAt_def)

lemma coherent_toList:
  assumes "coherent a" "toList a = Inr e"
  shows "coherent e"
proof (cases "seekable a")
  case True
  then have "e = ensureInternalTryGetAt a"
    using assms(2) by (simp add: toList_def seekable_def Let_def)
  with assms(1) show ?thesis by (simp add: coherent_ensure)
next
  case False
  then have "toArray (ensureInternalTryGetAt a) = Inr (iterate a)"
    using toArray_iterating[of "ensureInternalTryGetAt a"] by simp
  with False have "constructor (SrcArray (iterate a)) = Inr e"
    using assms(2) by (simp add: toList_def seekable_def Let_def from_enum_def)
  then show ?thesis by (rule coherent_constructor) simp
qed

lemma handle_coherent: "handle e \<Longrightarrow> coherent e"
proof (induction rule: handle.induct)
  case (h_new s e)
  then show ?case by (rule coherent_constructor)
next
  case (h_wrap inner e)
  from h_wrap.IH h_wrap.hyps(2) show ?case by (rule coherent_wrap)
next
  case h_empty
  show ?case by (rule coherent_empty)
next
  case (h_range cnt start)
  then show ?case by (rule coherent_range)
next
  case (h_repeat cnt item)
  then show ?case by (rule coherent_repeat)
next
  case (h_concat a iterable b e)
  from h_concat.IH(1) h_concat.IH(2) h_concat.hyps(2) h_concat.hyps(4)
  show ?case by (rule coherent_concat)
next
  case (h_select a f e)
  from h_select.IH h_select.hyps(2) show ?case by (rule coherent_select)
next
  case (h_skip a nr)
  from h_skip.IH h_skip.hyps(2) show ?case by (rule coherent_skip)
next
  case (h_take a nr)
  from h_take.IH h_take.hyps(2) show ?case by (rule coherent_take)
next
  case (h_where a f e)
  from h_where.hyps(2) show ?case by (rule coherent_where)
next
  case (h_distinct a cmp)
  show ?case by (rule coherent_distinct)
next
  case (h_toList a e)
  from h_toList.IH h_toList.hyps(2) show ?case by (rule coherent_toList)
next
  case (h_count a)
  then show ?case by (simp only: coherent_ensure)
next
  case (h_tryGetAt a)
  then show ?case by (simp only: coherent_ensure)
qed

section \<open>Materialising\<close>

lemma and_then_simps [simp]: "and_then (Inl e) f = Inl e" "and_then (Inr x) f = f x"
  by (simp_all add: and_then_def)

lemma toArray_negative:
  assumes "seekable e" "count e < 0"
  shows "toArray e = Inl (RangeError ''Invalid array length'')"
  using assms by (simp add: toArray_def seekable_def Let_def)

lemma toArray_seekable_cong:
  assumes "seekable a" "seekable b" "count a = count b"
    "\<And>index. 0 \<le> index \<Longrightarrow> index < count a \<Longrightarrow> tryGetAt a index = tryGetAt b index"
  shows "toArray a = toArray b"
proof (cases "count a < 0")
  case True
  with assms(1-3) show ?thesis by (simp add: toArray_negative)
next
  case False
  then have "0 \<le> count a" "0 \<le> count b" using assms(3) by simp_all
  moreover have "tryGetAt a (int k) = tryGetAt b (int k)" if "k < nat (count b)" for k
    using that assms(3) by (intro assms(4)) simp_all
  ultimately show ?thesis
    using assms(1-3) by (simp add: toArray_seeking)
qed

lemma set_src_fields [simp]:
  "p_src (set_src s e) = s" "p_generator (set_src s e) = p_generator e"
  "p_canSeek (set_src s e) = p_canSeek e" "p_count (set_src s e) = p_count e"
  "p_tryGetAt (set_src s e) = p_tryGetAt e"
  by (simp_all add: set_src_def)


section \<open>Library-built handles\<close>

lemma handle_lookup_defined:
  assumes "handle H"
  shows "seekable H \<longrightarrow> (\<forall>index. 0 \<le> index \<and> index < count H \<longrightarrow> tryGetAt H index \<noteq> None)"
  using handle_coherent[OF assms] by (simp add: coherent_def)

lemma beyond_count:
  assumes "handle H" "count H \<le> index"
  shows "tryGetAt H index = None"
    and "elementAt H index = Inl (Error ''Index out of range'')"
    and "elementAtOrDefault H index = VUndefined"
proof -
  show n: "tryGetAt H index = None"
    using handle_coherent[OF assms(1)] assms(2) by (simp add: coherent_def)
  show "elementAt H index = Inl (Error ''Index out of range'')"
    using n by (simp add: elementAt_def tryGetAt_def)
  show "elementAtOrDefault H index = VUndefined"
    using n by (simp add: elementAtOrDefault_def tryGetAt_def)
qed

lemma toArray_handle:
  assumes "handle H"
  shows "\<exists>xs. toArray H = Inr xs \<and> int (length xs) = count H"
proof (cases "seekable H")
  case True
  have "0 \<le> count H" using handle_coherent[OF assms] by (simp add: coherent_def)
  with True show ?thesis by (simp add: toArray_seeking)
next
  case False
  then show ?thesis
    using handle_coherent[OF assms] by (simp add: toArray_iterating coherent_def)
qed

section \<open>The aggregate loops\<close>

lemma num_add_NaN [simp]: "num_add host_plus NaN b = NaN" "num_add host_plus a NaN = NaN"
  by (cases b; simp) (cases a; simp)

lemma foldl_num_add_NaN [simp]: "foldl (num_add host_plus) NaN ns = NaN"
  by (induction ns) simp_all

lemma foldl_num_add_absorbs: "NaN \<in> set ns \<Longrightarrow> foldl (num_add host_plus) s ns = NaN"
  by (induction ns arbitrary: s) auto

lemma sum_loop_started:
  "0 < sum_count agg \<Longrightarrow>
   sum_loop host_plus agg xs =
     SumAgg (foldl (num_add host_plus) (agg_sum agg) (map toNumber xs))
       (sum_count agg + int (length xs))"
  by (induction xs arbitrary: agg) (simp_all add: algebra_simps)

lemma sum_loop_Cons:
  "sum_loop host_plus (SumAgg (Num 0) 0) (x # rest) =
     SumAgg (foldl (num_add host_plus) (toNumber x) (map toNumber rest)) (1 + int (length rest))"
  by (simp add: sum_loop_started)

lemma stats_loop_facts:
  "agg_count (stats_loop c agg xs) = agg_count agg + int (length xs) \<and>
   (agg_min (stats_loop c agg xs) = agg_min agg \<or> agg_min (stats_loop c agg xs) \<in> set xs) \<and>
   (agg_max (stats_loop c agg xs) = agg_max agg \<or> agg_max (stats_loop c agg xs) \<in> set xs)"
proof (induction xs arbitrary: agg)
  case Nil
  then show ?case by simp
next
  case (Cons item rest)
  let ?agg = "Agg (agg_count agg + 1)
          (if agg_min agg = VUndefined \<or> c item (agg_min agg) < 0 then item else agg_min agg)
          (if agg_max agg = VUndefined \<or> c item (agg_max agg) > 0 then item else agg_max agg)"
  have s: "stats_loop c agg (item # rest) = stats_loop c ?agg rest" by simp
  from Cons.IH[of ?agg] show ?case
    unfolding s by (auto split: if_splits)
qed

lemma stats_loop_first:
  "stats_loop c (Agg 0 VUndefined VUndefined) (x # rest) = stats_loop c (Agg 1 x x) rest"
  by simp

lemma stats_loop_started:
  "agg_min agg \<in> S \<Longrightarrow> agg_max agg \<in> S \<Longrightarrow> set xs \<subseteq> S \<Longrightarrow>
   agg_min (stats_loop c agg xs) \<in> S \<and> agg_max (stats_loop c agg xs) \<in> S"
proof (induction xs arbitrary: agg)
  case Nil
  then show ?case by simp
next
  case (Cons item rest)
  let ?agg = "Agg (agg_count agg + 1)
          (if agg_min agg = VUndefined \<or> c item (agg_min agg) < 0 then item else agg_min agg)
          (if agg_max agg = VUndefined \<or> c item (agg_max agg) > 0 then item else agg_max agg)"
  have s: "stats_loop c agg (item # rest) = stats_loop c ?agg rest" by simp
  have "agg_min ?agg \<in> S" "agg_max ?agg \<in> S" "set rest \<subseteq> S"
    using Cons.prems by auto
  from Cons.IH[OF this] show ?case unfolding s .
qed

text \<open>
  With an order that is irreflexive and transitive on the items, none of them
  \<open>undefined\<close>, no item is below the minimum kept by the loop.
\<close>

lemma stats_loop_min_least:
  assumes irr: "\<forall>x\<in>S. \<not> c x x < 0"
    and tr: "\<forall>x\<in>S. \<forall>y\<in>S. \<forall>z\<in>S. c x y < 0 \<and> c y z < 0 \<longrightarrow> c x z < 0"
    and und: "VUndefined \<notin> S"
  shows "set xs \<subseteq> S \<Longrightarrow> seen \<subseteq> S \<Longrightarrow> agg_min agg \<in> S \<Longrightarrow>
         \<forall>x\<in>seen. \<not> c x (agg_min agg) < 0 \<Longrightarrow>
         \<forall>x\<in>seen \<union> set xs. \<not> c x (agg_min (stats_loop c agg xs)) < 0"
proof (induction xs arbitrary: agg seen)
  case Nil
  then show ?case by simp
next
  case (Cons item rest)
  let ?m = "agg_min agg"
  let ?agg = "Agg (agg_count agg + 1)
          (if agg_min agg = VUndefined \<or> c item (agg_min agg) < 0 then item else agg_min agg)
          (if agg_max agg = VUndefined \<or> c item (agg_max agg) > 0 then item else agg_max agg)"
  have s: "stats_loop c agg (item # rest) = stats_loop c ?agg rest" by simp
  have item: "item \<in> S" and rest: "set rest \<subseteq> S" using Cons.prems(1) by simp_all
  have m: "?m \<noteq> VUndefined" using Cons.prems(3) und by auto
  have seen: "insert item seen \<subseteq> S" using item Cons.prems(2) by simp
  have min_in: "agg_min ?agg \<in> S" using item Cons.prems(3) by simp
  have least: "\<forall>x\<in>insert item seen. \<not> c x (agg_min ?agg) < 0"
  proof (cases "c item ?m < 0")
    case True
    have "\<not> c x item < 0" if "x \<in> seen" for x
    proof
      assume "c x item < 0"
      moreover have "x \<in> S" using that Cons.prems(2) by auto
      ultimately have "c x ?m < 0"
        using tr True item Cons.prems(3) by blast
      with Cons.prems(4) that show False by simp
    qed
    with True m irr item show ?thesis by simp
  next
    case False
    with m Cons.prems(4) show ?thesis by simp
  qed
  from Cons.IH[OF rest seen min_in least] show ?case
    unfolding s by simp
qed

lemma stats_loop_max_greatest:
  assumes irr: "\<forall>x\<in>S. \<not> c x x > 0"
    and tr: "\<forall>x\<in>S. \<forall>y\<in>S. \<forall>z\<in>S. c x y > 0 \<and> c y z > 0 \<longrightarrow> c x z > 0"
    and und: "VUndefined \<notin> S"
  shows "set xs \<subseteq> S \<Longrightarrow> seen \<subseteq> S \<Longrightarrow> agg_max agg \<in> S \<Longrightarrow>
         \<forall>x\<in>seen. \<not> c x (agg_max agg) > 0 \<Longrightarrow>
         \<forall>x\<in>seen \<union> set xs. \<not> c x (agg_max (stats_loop c agg xs)) > 0"
proof (induction xs arbitrary: agg seen)
  case Nil
  then show ?case by simp
next
  case (Cons item rest)
  let ?m = "agg_max agg"
  let ?agg = "Agg (agg_count agg + 1)
          (if agg_min agg = VUndefined \<or> c item (agg_min agg) < 0 then item else agg_min agg)
          (if agg_max agg = VUndefined \<or> c item (agg_max agg) > 0 then item else agg_max agg)"
  have s: "stats_loop c agg (item # rest) = stats_loop c ?agg rest" by simp
  have item: "item \<in> S" and rest: "set rest \<subseteq> S" using Cons.prems(1) by simp_all
  have m: "?m \<noteq> VUndefined" using Cons.prems(3) und by auto
  have seen: "insert item seen \<subseteq> S" using item Cons.prems(2) by simp
  have max_in: "agg_max ?agg \<in> S" using item Cons.prems(3) by simp
  have greatest: "\<forall>x\<in>insert item seen. \<not> c x (agg_max ?agg) > 0"
  proof (cases "c item ?m > 0")
    case True
    have "\<not> c x item > 0" if "x \<in> seen" for x
    proof
      assume "c x item > 0"
      moreover have "x \<in> S" using that Cons.prems(2) by auto
      ultimately have "c x ?m > 0"
        using tr True item Cons.prems(3) by blast
      with Cons.prems(4) that show False by simp
    qed
    with True m irr item show ?thesis by simp
  next
    case False
    with m Cons.prems(4) show ?thesis by simp
  qed
  from Cons.IH[OF rest seen max_in greatest] show ?case
    unfolding s by simp
qed

text \<open>What \<open>stats\<close> computes with the comparer it calls.\<close>

lemma stats_loop_order:
  assumes "xs \<noteq> []"
  shows "agg_min (stats_loop c (Agg 0 VUndefined VUndefined) xs) \<in> set xs"
    and "agg_max (stats_loop c (Agg 0 VUndefined VUndefined) xs) \<in> set xs"
    and "VUndefined \<notin> set xs \<Longrightarrow> \<forall>x\<in>set xs. \<not> c x x < 0 \<Longrightarrow>
         \<forall>x\<in>set xs. \<forall>y\<in>set xs. \<forall>z\<in>set xs. c x y < 0 \<and> c y z < 0 \<longrightarrow> c x z < 0 \<Longrightarrow>
         \<forall>x\<in>set xs. \<not> c x (agg_min (stats_loop c (Agg 0 VUndefined VUndefined) xs)) < 0"
    and "VUndefined \<notin> set xs \<Longrightarrow> \<forall>x\<in>set xs. \<not> c x x > 0 \<Longrightarrow>
         \<forall>x\<in>set xs. \<forall>y\<in>set xs. \<forall>z\<in>set xs. c x y > 0 \<and> c y z > 0 \<longrightarrow> c x z > 0 \<Longrightarrow>
         \<forall>x\<in>set xs. \<not> c x (agg_max (stats_loop c (Agg 0 VUndefined VUndefined) xs)) > 0"
proof -
  obtain x rest where xs: "xs = x # rest" using assms by (cases xs) auto
  have first: "stats_loop c (Agg 0 VUndefined VUndefined) xs = stats_loop c (Agg 1 x x) rest"
    unfolding xs by (rule stats_loop_first)
  have "agg_min (Agg 1 x x) \<in> set xs" "agg_max (Agg 1 x x) \<in> set xs" "set rest \<subseteq> set xs"
    by (auto simp: xs)
  from stats_loop_started[OF this, of c]
  show "agg_min (stats_loop c (Agg 0 VUndefined VUndefined) xs) \<in> set xs"
    and "agg_max (stats_loop c (Agg 0 VUndefined VUndefined) xs) \<in> set xs"
    unfolding first by simp_all
  show "\<forall>x\<in>set xs. \<not> c x (agg_min (stats_loop c (Agg 0 VUndefined VUndefined) xs)) < 0"
    if und: "VUndefined \<notin> set xs" and irr: "\<forall>x\<in>set xs. \<not> c x x < 0"
      and tr: "\<forall>x\<in>set xs. \<forall>y\<in>set xs. \<forall>z\<in>set xs. c x y < 0 \<and> c y z < 0 \<longrightarrow> c x z < 0"
  proof -
    have "\<forall>y\<in>{x} \<union> set rest. \<not> c y (agg_min (stats_loop c (Agg 1 x x) rest)) < 0"
      by (rule stats_loop_min_least[OF irr tr und]) (use irr in \<open>auto simp: xs\<close>)
    then show ?thesis unfolding first by (simp add: xs)
  qed
  show "\<forall>x\<in>set xs. \<not> c x (agg_max (stats_loop c (Agg 0 VUndefined VUndefined) xs)) > 0"
    if und: "VUndefined \<notin> set xs" and irr: "\<forall>x\<in>set xs. \<not> c x x > 0"
      and tr: "\<forall>x\<in>set xs. \<forall>y\<in>set xs. \<forall>z\<in>set xs. c x y > 0 \<and> c y z > 0 \<longrightarrow> c x z > 0"
  proof -
    have "\<forall>y\<in>{x} \<union> set rest. \<not> c y (agg_max (stats_loop c (Agg 1 x x) rest)) > 0"
      by (rule stats_loop_max_greatest[OF irr tr und]) (use irr in \<open>auto simp: xs\<close>)
    then show ?thesis unfolding first by (simp add: xs)
  qed
qed

section \<open>Splicing with a start and a count that are not negative\<close>

lemma toArray_view:
  assumes "coherent e" "seekable e"
  shows "toArray e = Inr (lookup_view e)"
proof -
  have "0 \<le> count e" using assms(1) by (simp add: coherent_def)
  with assms(2) show ?thesis by (simp add: toArray_seeking lookup_view_def)
qed

lemma length_view [simp]: "length (lookup_view e) = nat (count e)"
  by (simp add: lookup_view_def)

lemma view_nth:
  "k < nat (count e) \<Longrightarrow>
   lookup_view e ! k = (case tryGetAt e (int k) of None \<Rightarrow> VUndefined | Some v \<Rightarrow> v)"
  by (simp add: lookup_view_def)

lemma view_take:
  assumes "seekable a" "0 \<le> nr"
  shows "lookup_view (take_enum a nr) = take (nat nr) (lookup_view a)"
proof (rule nth_equalityI)
  show "length (lookup_view (take_enum a nr)) = length (take (nat nr) (lookup_view a))"
    using assms(2) by (auto simp add: take_count min_def)
next
  fix k assume "k < length (lookup_view (take_enum a nr))"
  then have k: "k < nat (min nr (count a))" by (simp add: take_count)
  then have "int k < nr" "k < nat (count a)" by simp_all
  then show "lookup_view (take_enum a nr) ! k = take (nat nr) (lookup_view a) ! k"
    using assms k by (simp add: view_nth take_count take_tryGetAt)
qed

lemma view_skip:
  assumes "0 \<le> nr"
  shows "lookup_view (skip a nr) = drop (nat nr) (lookup_view a)"
proof (rule nth_equalityI)
  show "length (lookup_view (skip a nr)) = length (drop (nat nr) (lookup_view a))"
    using assms by (auto simp add: skip_count max_def nat_diff_distrib)
next
  fix k assume "k < length (lookup_view (skip a nr))"
  then have k: "k < nat (max 0 (count a - nr))" by (simp add: skip_count)
  then have "nat nr + k < nat (count a)" using assms by simp
  moreover have "int (nat nr + k) = int k + nr" using assms by simp
  ultimately show "lookup_view (skip a nr) ! k = drop (nat nr) (lookup_view a) ! k"
    using k by (simp add: view_nth skip_count skip_tryGetAt add.commute)
qed

lemma view_concat:
  assumes "coherent a" "seekable a" "coherent b"
    "concat_enum a iterable = Inr r" "from_enum iterable = Inr b"
  shows "lookup_view r = lookup_view a @ lookup_view b"
proof (rule nth_equalityI)
  note f = concat_facts[OF assms(4,5)]
  have ca: "0 \<le> count a" and cb: "0 \<le> count b"
    using assms(1,3) by (simp_all add: coherent_def)
  show len: "length (lookup_view r) = length (lookup_view a @ lookup_view b)"
    using ca cb by (simp add: f(1) nat_add_distrib)
  fix k assume "k < length (lookup_view r)"
  then have k: "k < nat (count r)" by simp
  show "lookup_view r ! k = (lookup_view a @ lookup_view b) ! k"
  proof (cases "k < nat (count a)")
    case True
    then have "tryGetAt a (int k) \<noteq> None"
      using assms(1,2) by (simp add: coherent_def)
    then show ?thesis
      using True k assms(2) by (auto simp: view_nth f(4) nth_append)
  next
    case False
    then have "count a \<le> int k" by simp
    then have n: "tryGetAt a (int k) = None"
      using assms(1) by (simp add: coherent_def)
    have "k - nat (count a) < nat (count b)"
      using k False ca cb by (simp add: f(1))
    moreover have "int (k - nat (count a)) = int k - count a"
      using False ca by simp
    ultimately show ?thesis
      using False k assms(2) n by (simp add: view_nth f(4) nth_append)
  qed
qed

lemma native_splice_nonneg:
  assumes "0 \<le> start" "0 \<le> howmany"
  shows "native_splice start howmany items xs =
           take (nat start) xs @ items @ drop (nat (start + howmany)) xs"
proof (cases "start \<le> int (length xs)")
  case True
  show ?thesis
  proof (cases "howmany \<le> int (length xs) - start")
    case True
    with \<open>start \<le> int (length xs)\<close> assms show ?thesis
      by (simp add: native_splice_def Let_def min_def max_def)
  next
    case False
    with True assms show ?thesis
      by (simp add: native_splice_def Let_def min_def max_def)
  qed
next
  case False
  with assms show ?thesis
    by (simp add: native_splice_def Let_def min_def max_def)
qed

lemma splice_nonneg:
  assumes "handle H" "0 \<le> start" "0 \<le> howmany"
  shows "\<exists>xs. toArray H = Inr xs \<and>
              and_then (splice_enum H start howmany newItems) toArray =
                Inr (native_splice start howmany newItems xs)"
proof -
  let ?I = "Enumerable (SrcArray newItems) (src_iterator (SrcArray newItems)) False None None"
  let ?T = "take_enum H start" and ?S = "skip H (start + howmany)"
  have cI: "constructor (SrcArray newItems) = Inr ?I"
    by (simp add: constructor_def ensureIterable_def)
  have fI: "from_enum (SrcArray newItems) = Inr ?I"
    by (simp add: from_enum_def cI)
  obtain F where F: "concat_enum ?T (SrcArray newItems) = Inr F"
    using concat_ok[OF fI] by (auto simp: ensureIterable_def)
  obtain R where R: "concat_enum F (SrcEnumerable ?S) = Inr R"
    using concat_ok[of "SrcEnumerable ?S" ?S F] by auto
  have sp: "splice_enum H start howmany newItems = Inr R"
    by (simp add: splice_enum_def F R)
  have hT: "handle ?T" using assms(1,2) by (rule h_take)
  have hI: "handle ?I" using cI by (rule h_new) simp
  have hS: "handle ?S" using assms by (intro h_skip) simp_all
  have hF: "handle F" using hT fI hI F by (rule h_concat)
  note fF = concat_facts[OF F fI]
  note fR = concat_facts[OF R from_enum_handle]
  have sI: "seekable ?I" by (simp add: seekable_def)
  have vI: "lookup_view ?I = newItems"
    by (rule nth_equalityI) (simp_all add: lookup_view_def count_def tryGetAt_def index_of_def)
  show ?thesis
  proof (cases "seekable H")
    case True
    have sT: "seekable ?T" and sS: "seekable ?S" and sF: "seekable F"
      using True sI by (simp_all add: take_seekable skip_seekable fF(3))
    then have sR: "seekable R" by (simp add: fR(3))
    have hR: "handle R" using hF from_enum_handle hS R by (rule h_concat)
    have "lookup_view F = take (nat start) (lookup_view H) @ newItems"
      using view_concat[OF handle_coherent[OF hT] sT handle_coherent[OF hI] F fI]
        view_take[OF True assms(2)] vI by simp
    moreover have "lookup_view R = lookup_view F @ lookup_view ?S"
      by (rule view_concat[OF handle_coherent[OF hF] sF handle_coherent[OF hS] R from_enum_handle])
    moreover have "lookup_view ?S = drop (nat (start + howmany)) (lookup_view H)"
      using assms by (intro view_skip) simp
    ultimately have "toArray R =
        Inr (take (nat start) (lookup_view H) @ newItems @
             drop (nat (start + howmany)) (lookup_view H))"
      using toArray_view[OF handle_coherent[OF hR] sR] by simp
    then show ?thesis
      using toArray_view[OF handle_coherent[OF assms(1)] True] assms(2,3)
      by (simp add: sp native_splice_nonneg)
  next
    case False
    then have "\<not> seekable R" by (simp add: fR(3) fF(3) take_seekable)
    then have "toArray R = Inr (iterate R)" by (rule toArray_iterating)
    then have "toArray R =
        Inr (take (nat start) (iterate H) @ newItems @ drop (nat (start + howmany)) (iterate H))"
      by (simp add: fR(2) fF(2) take_iterate skip_iterate) (simp add: iterate_def)
    then show ?thesis
      using toArray_iterating[OF False] assms(2,3) by (simp add: sp native_splice_nonneg)
  qed
qed

lemma splice_nonneg_example:
  "and_then (splice_enum (range_enum 5 3) 1 1 [VStr ''x'']) toArray =
     Inr [VNum (Num 5), VStr ''x'', VNum (Num 7)]"
  by code_simp

section \<open>Lookup and iteration of a constructed handle\<close>

lemma constructed_lookup_is_item:
  assumes "constructor s = Inr H" "regular s" "0 \<le> i" "i < count H"
  shows "elementAt H i = Inr (iterate H ! nat i)"
proof -
  have e: "H = Enumerable s (src_iterator s) False None None" and ok: "ensureIterable s = Inr ()"
    using assms(1) by (auto simp: constructor_def split: sum.splits)
  show ?thesis
  proof (cases s)
    case (SrcString str)
    then show ?thesis using assms(3,4)
      by (simp add: e elementAt_def count_def iterate_def charAt_def)
  next
    case (SrcArray xs)
    then show ?thesis using assms(3,4)
      by (simp add: e elementAt_def count_def iterate_def index_of_def)
  next
    case (SrcArrayLike xs)
    then have "VUndefined \<notin> set xs" using assms(2) by simp
    moreover have "nat i < length xs"
      using assms(3,4) SrcArrayLike by (simp add: e count_def)
    ultimately have "xs ! nat i \<noteq> VUndefined" using nth_mem by metis
    then show ?thesis using assms(3,4) SrcArrayLike
      by (simp add: e elementAt_def count_def iterate_def index_of_def)
  next
    case (SrcSized xs)
    then show ?thesis using assms(3,4)
      by (simp add: e elementAt_def count_def iterate_def scan_at_eq)
  next
    case (SrcIterable xs)
    then show ?thesis using assms(3,4)
      by (simp add: e elementAt_def count_def iterate_def scan_at_eq count_scan_eq)
  next
    case (SrcGenFn g)
    then show ?thesis using assms(3,4)
      by (simp add: e elementAt_def count_def iterate_def scan_at_eq count_scan_eq)
  next
    case (SrcEnumerable inner)
    then show ?thesis using assms(2) by simp
  qed (use ok in \<open>simp_all add: ensureIterable_def\<close>)
qed

section \<open>Taking, skipping and joining again\<close>

text \<open>
  For every handle that is not seekable, and for every seekable handle whose lookup
  finds a value at every index from 0 up to its count, \<open>take(n)\<close> followed by
  \<open>skip(n)\<close> materialises as the handle itself does, for every \<open>n\<close> that is not
  negative. The handles the library builds with counts that are not negative, over
  sources other than an array-like object holding \<open>undefined\<close>, are such handles
  (\<open>handle_lookup_defined\<close>).
\<close>

lemma take_concat_skip_defined:
  assumes defined: "seekable H \<Longrightarrow> \<forall>index. 0 \<le> index \<and> index < count H \<longrightarrow> tryGetAt H index \<noteq> None"
    and n: "0 \<le> n"
  shows "and_then (concat_enum (take_enum H n) (SrcEnumerable (skip H n))) toArray = toArray H"
proof -
  obtain R where R: "concat_enum (take_enum H n) (SrcEnumerable (skip H n)) = Inr R"
    using concat_ok[of "SrcEnumerable (skip H n)" "skip H n" "take_enum H n"] by auto
  note f = concat_facts[OF R from_enum_handle]
  have cnt: "count R = count H"
    using n by (simp add: f(1) take_count skip_count)
  have seek: "seekable R = seekable H"
    by (simp add: f(3) take_seekable skip_seekable)
  have "toArray R = toArray H"
  proof (cases "seekable H")
    case False
    then have "toArray R = Inr (iterate R)" "toArray H = Inr (iterate H)"
      using seek by (simp_all add: toArray_iterating)
    then show ?thesis
      by (simp add: f(2) take_iterate skip_iterate)
  next
    case True
    have "tryGetAt R index = tryGetAt H index" if "0 \<le> index" "index < count R" for index
    proof -
      have some: "tryGetAt H index \<noteq> None"
        using defined[OF True] that cnt by simp
      show ?thesis
      proof (cases "index < n")
        case True
        with some \<open>seekable H\<close> show ?thesis
          by (auto simp: f(4) take_seekable take_tryGetAt)
      next
        case False
        then have "min n (count H) = n" using that cnt by simp
        with False \<open>seekable H\<close> show ?thesis
          by (simp add: f(4) take_seekable take_tryGetAt take_count skip_tryGetAt)
      qed
    qed
    with True seek cnt show ?thesis
      by (intro toArray_seekable_cong) simp_all
  qed
  with R show ?thesis by simp
qed

lemma take_concat_skip_example:
  "(0::int) \<le> 2 \<and> seekable (range_enum 5 3) \<and>
   and_then (concat_enum (take_enum (range_enum 5 3) 2) (SrcEnumerable (skip (range_enum 5 3) 2)))
     toArray = Inr [VNum (Num 5), VNum (Num 6), VNum (Num 7)]"
proof -
  have s: "seekable (range_enum 5 3)"
    by (simp add: range_enum_def seekable_resolved)
  have d: "seekable (range_enum 5 3) \<Longrightarrow>
      \<forall>index. 0 \<le> index \<and> index < count (range_enum 5 3) \<longrightarrow>
        tryGetAt (range_enum 5 3) index \<noteq> None"
    by (simp add: range_enum_def count_resolved tryGetAt_resolved)
  have t: "toArray (range_enum 5 3) = Inr [VNum (Num 5), VNum (Num 6), VNum (Num 7)]"
    by code_simp
  show ?thesis
    using take_concat_skip_defined[of "range_enum 5 3" 2, OF d] s t by simp
qed

section \<open>The claims\<close>

text \<open>
  Claim C1. Each resolver is idempotent; once it has run, it returns the handle as it
  is whatever the source then is (the guard on the resolved field comes first, the
  source is not looked at); the length resolver leaves the resolved seek flag and
  lookup as they are and the seek resolver leaves the resolved length function as it
  is; and what \<open>count\<close>, the lookup and the seek flag give is the same before and after
  either resolver has run.
\<close>

theorem resolution_memoised:
  "ensureInternalCount (ensureInternalCount e) = ensureInternalCount e \<and>
   ensureInternalTryGetAt (ensureInternalTryGetAt e) = ensureInternalTryGetAt e \<and>
   ensureInternalCount (set_src s (ensureInternalCount e)) = set_src s (ensureInternalCount e) \<and>
   ensureInternalTryGetAt (set_src s (ensureInternalTryGetAt e)) =
     set_src s (ensureInternalTryGetAt e) \<and>
   p_canSeek (ensureInternalCount (ensureInternalTryGetAt e)) =
     p_canSeek (ensureInternalTryGetAt e) \<and>
   p_tryGetAt (ensureInternalCount (ensureInternalTryGetAt e)) =
     p_tryGetAt (ensureInternalTryGetAt e) \<and>
   p_count (ensureInternalTryGetAt (ensureInternalCount e)) = p_count (ensureInternalCount e) \<and>
   count (ensureInternalCount e) = count e \<and>
   count (ensureInternalTryGetAt e) = count e \<and>
   tryGetAt (ensureInternalTryGetAt e) = tryGetAt e \<and>
   tryGetAt (ensureInternalCount e) = tryGetAt e \<and>
   seekable (ensureInternalTryGetAt e) = seekable e \<and>
   seekable (ensureInternalCount e) = seekable e"
proof -
  have "p_count (set_src s (ensureInternalCount e)) \<noteq> None"
    by (simp add: ensureInternalCount_resolved)
  then have a: "ensureInternalCount (set_src s (ensureInternalCount e)) =
      set_src s (ensureInternalCount e)"
    by (rule ensureInternalCount_done)
  have "p_tryGetAt (set_src s (ensureInternalTryGetAt e)) \<noteq> None"
    by (simp add: ensureInternalTryGetAt_resolved)
  then have b: "ensureInternalTryGetAt (set_src s (ensureInternalTryGetAt e)) =
      set_src s (ensureInternalTryGetAt e)"
    by (rule ensureInternalTryGetAt_done)
  show ?thesis
    using a b lookup_ensureInternalCount[of e] by simp
qed

text \<open>
  Claim C6. \<open>take(n).count()\<close> is \<open>min(n, count())\<close>, \<open>skip(n).count()\<close> is
  \<open>max(0, count() - n)\<close>, and both derived handles carry the seek flag of the handle
  they come from, as set at construction and as read by every later method.
\<close>

theorem take_skip_count_seekable:
  "count (take_enum H n) = min n (count H) \<and>
   count (skip H n) = max 0 (count H - n) \<and>
   seekable (take_enum H n) = seekable H \<and>
   seekable (skip H n) = seekable H \<and>
   p_canSeek (take_enum H n) = seekable H \<and>
   p_canSeek (skip H n) = seekable H"
  by (simp add: take_count skip_count take_seekable skip_seekable)
     (simp add: take_enum_def skip_def Let_def seekable_def)

text \<open>
  Claim C7. On a handle that is not seekable \<open>length\<close> throws the error that names
  \<open>count()\<close>, while \<open>count()\<close> of a library-built handle is the number of items a
  scan yields; on a seekable handle \<open>length\<close> is \<open>count()\<close>. A handle over a generator
  function is not seekable and counts by scanning.
\<close>

theorem length_guard:
  "(\<not> seekable h \<longrightarrow>
      length_enum h =
        Inl (Error ''Calling length on this enumerable will iterate it. Use count()'') \<and>
      (handle h \<longrightarrow> count h = int (length (iterate h)))) \<and>
   (seekable h \<longrightarrow> length_enum h = Inr (count h)) \<and>
   constructor (SrcGenFn g) = Inr (new_Enumerable g) \<and>
   \<not> seekable (new_Enumerable g) \<and>
   count (new_Enumerable g) = int (length (g ()))"
proof -
  have "count h = int (length (iterate h))" if "handle h"
    using handle_coherent[OF that] by (simp add: coherent_def)
  moreover have "\<not> seekable (new_Enumerable g)"
    by (rule unresolved_gen(2)[where g = g]) simp_all
  moreover have "count (new_Enumerable g) = int (length (g ()))"
    using unresolved_gen_count[of "new_Enumerable g" g] by simp
  ultimately show ?thesis
    by (simp add: length_enum_def seekable_def constructor_def ensureIterable_def
        new_Enumerable_def)
qed

text \<open>The guard at a generator of two items and at \<open>range(5, 3)\<close>.\<close>

theorem length_guard_witness:
  "\<not> seekable (new_Enumerable (\<lambda>_. [VNum (Num 7), VNum (Num 8)])) \<and>
   handle (new_Enumerable (\<lambda>_. [VNum (Num 7), VNum (Num 8)])) \<and>
   length_enum (new_Enumerable (\<lambda>_. [VNum (Num 7), VNum (Num 8)])) =
     Inl (Error ''Calling length on this enumerable will iterate it. Use count()'') \<and>
   count (new_Enumerable (\<lambda>_. [VNum (Num 7), VNum (Num 8)])) = 2 \<and>
   seekable (range_enum 5 3) \<and> length_enum (range_enum 5 3) = Inr 3"
proof -
  let ?g = "\<lambda>_::unit. [VNum (Num 7), VNum (Num 8)]"
  have c: "constructor (SrcGenFn ?g) = Inr (new_Enumerable ?g)"
    by (simp add: constructor_def ensureIterable_def new_Enumerable_def)
  have h: "handle (new_Enumerable ?g)"
    by (rule h_new[OF c]) simp
  have s: "seekable (range_enum 5 3)"
    by (simp add: range_enum_def seekable_resolved)
  have n: "count (range_enum 5 3) = 3"
    by (simp add: range_enum_def count_resolved)
  show ?thesis
    using length_guard[of "new_Enumerable ?g" ?g] length_guard[of "range_enum 5 3" ?g] h s n
    by (simp add: iterate_def)
qed

text \<open>
  Claim C9. A value with no iterator that is not a generator function is refused by
  the constructor and by \<open>from\<close> with the error of \<open>_ensureIterable\<close>; a handle that
  is constructed holds the source as given and the source's iterator unapplied, with
  the seek flag false and both capabilities unresolved; \<open>from\<close> of a handle is that
  handle.
\<close>

theorem construction:
  "(\<not> has_iterator s \<and> \<not> is_generator_function s \<longrightarrow>
      constructor s = Inl (Error ''the argument must be iterable!'') \<and>
      from_enum s = Inl (Error ''the argument must be iterable!'')) \<and>
   (constructor s = Inr h \<longrightarrow> h = Enumerable s (src_iterator s) False None None) \<and>
   from_enum (SrcEnumerable e) = Inr e"
  by (cases s) (auto simp: constructor_def ensureIterable_def from_enum_def split: if_splits)

text \<open>Construction from an object without iterator, a plain function and an array.\<close>

theorem construction_witness:
  "\<not> has_iterator SrcNonIterable \<and> \<not> is_generator_function SrcNonIterable \<and>
   constructor SrcNonIterable = Inl (Error ''the argument must be iterable!'') \<and>
   from_enum SrcPlainFunction = Inl (Error ''the argument must be iterable!'') \<and>
   constructor (SrcArray [VNum (Num 1)]) =
     Inr (Enumerable (SrcArray [VNum (Num 1)]) (src_iterator (SrcArray [VNum (Num 1)]))
            False None None)"
  using construction[of SrcNonIterable empty_enum empty_enum]
    construction[of SrcPlainFunction empty_enum empty_enum]
    construction[of "SrcArray [VNum (Num 1)]"
      "Enumerable (SrcArray [VNum (Num 1)]) (src_iterator (SrcArray [VNum (Num 1)]))
         False None None" empty_enum]
  by (simp add: constructor_def ensureIterable_def)

text \<open>
  Claim C2, at the inputs where the code leaves it. The lookup over a string tests
  \<open>index < length\<close> only, where the lookups over an array, \<open>range\<close> and \<open>repeat\<close> also
  test \<open>index >= 0\<close>: at index \<open>-1\<close> of \<open>"abc"\<close> it returns the value \<open>""\<close> of \<open>charAt\<close>,
  so \<open>elementAt(-1)\<close> returns \<open>""\<close> and does not throw, and \<open>elementAtOrDefault(-1)\<close> is
  \<open>""\<close>, not \<open>undefined\<close>. The lookup of \<open>skip(nr)\<close> adds \<open>nr\<close> to any index:
  \<open>[1, 2, 3].skip(2)\<close> has count 1 and \<open>elementAt(-1)\<close> returns 2.
\<close>

theorem lookup_negative_index:
  "and_then (from_enum (SrcString ''abc'')) (\<lambda>h. elementAt h (- 1)) = Inr (VStr []) \<and>
   and_then (from_enum (SrcString ''abc'')) (\<lambda>h. Inr (elementAtOrDefault h (- 1))) =
     Inr (VStr []) \<and>
   and_then (from_enum (SrcString ''abc'')) (\<lambda>h. Inr (count h)) = Inr 3 \<and>
   and_then (from_enum (SrcArray [VNum (Num 1), VNum (Num 2), VNum (Num 3)]))
     (\<lambda>h. Inr (count (skip h 2))) = Inr 1 \<and>
   and_then (from_enum (SrcArray [VNum (Num 1), VNum (Num 2), VNum (Num 3)]))
     (\<lambda>h. elementAt (skip h 2) (- 1)) = Inr (VNum (Num 2))"
  by code_simp

text \<open>
  Claim C3, at a negative start. \<open>[1, 2, 3].splice(-1, 1)\<close> of the library is
  \<open>take(-1)\<close>, then nothing, then \<open>skip(0)\<close>: counts \<open>-1 + 0 + 3\<close>, materialised as
  \<open>[2, 3]\<close>; the native splice removes the last element and leaves \<open>[1, 2]\<close>.
  For a start and a count that are not negative the two agree on every library-built
  handle (\<open>splice_nonneg\<close>).
\<close>

theorem splice_negative_start:
  "and_then (from_enum (SrcArray [VNum (Num 1), VNum (Num 2), VNum (Num 3)]))
     (\<lambda>h. and_then (splice_enum h (- 1) 1 []) toArray) = Inr [VNum (Num 2), VNum (Num 3)] \<and>
   native_splice (- 1) 1 [] [VNum (Num 1), VNum (Num 2), VNum (Num 3)] =
     [VNum (Num 1), VNum (Num 2)]"
  by code_simp

text \<open>
  Claim C4 as stated fails: over a generator of one item, followed by an
  array-like object whose only entry is \<open>undefined\<close>, the second operand has count 1,
  its \<open>elementAt(0)\<close> throws (the array-like lookup finds no value at an \<open>undefined\<close>
  entry), and \<open>elementAt(1)\<close> of the concatenation, which scans, returns
  \<open>undefined\<close>.
\<close>

theorem concat_elementAt_counterexample:
  "and_then (from_enum (SrcArrayLike [VUndefined])) (\<lambda>B. Inr (count B)) = Inr 1 \<and>
   and_then (from_enum (SrcGenFn (\<lambda>_. [VNum (Num 1)])))
     (\<lambda>A. and_then (concat_enum A (SrcArrayLike [VUndefined])) (\<lambda>R. elementAt R (count A))) \<noteq>
   and_then (from_enum (SrcArrayLike [VUndefined])) (\<lambda>B. elementAt B 0)"
  by code_simp

text \<open>
  Claim C4, amended. For all handles the count of a concatenation is the sum of the
  counts and it is seekable exactly when both operands are. When the first operand is
  built by the library and either it is seekable or the second operand is not empty
  and its lookup at 0 returns the first item it yields, \<open>elementAt\<close> of the
  concatenation at the first operand's count is \<open>elementAt(0)\<close> of the second.
\<close>

theorem concat_count_seekable_elementAt:
  assumes "concat_enum A iterable = Inr R" "from_enum iterable = Inr B"
  shows "count R = count A + count B \<and>
         (seekable R \<longleftrightarrow> seekable A \<and> seekable B) \<and>
         (handle A \<longrightarrow>
          (seekable A \<or> iterate B \<noteq> [] \<and> elementAt B 0 = Inr (hd (iterate B))) \<longrightarrow>
          elementAt R (count A) = elementAt B 0)"
proof -
  note f = concat_facts[OF assms]
  have "elementAt R (count A) = elementAt B 0"
    if h: "handle A" and d: "seekable A \<or> iterate B \<noteq> [] \<and> elementAt B 0 = Inr (hd (iterate B))"
  proof (cases "seekable A")
    case True
    have "tryGetAt A (count A) = None"
      using handle_coherent[OF h] by (simp add: coherent_def)
    with True have "tryGetAt R (count A) = tryGetAt B 0"
      by (simp add: f(4))
    then show ?thesis by (simp add: elementAt_def tryGetAt_def)
  next
    case False
    with d have ne: "iterate B \<noteq> []" and b: "elementAt B 0 = Inr (hd (iterate B))" by simp_all
    have c: "count A = int (length (iterate A))"
      using handle_coherent[OF h] by (simp add: coherent_def)
    have "tryGetAt R (count A) = Some (hd (iterate B))"
      using False ne by (simp add: f(4) c scan_at_eq nth_append hd_conv_nth)
    then have "elementAt R (count A) = Inr (hd (iterate B))"
      by (simp add: elementAt_def tryGetAt_def)
    with b show ?thesis by simp
  qed
  then show ?thesis by (simp add: f(1,3))
qed

text \<open>
  The amended claim at \<open>range(5, 3)\<close> followed by the array \<open>[9]\<close>.
\<close>

theorem concat_count_seekable_elementAt_witness:
  "handle (range_enum 5 3) \<and> seekable (range_enum 5 3) \<and>
   from_enum (SrcArray [VNum (Num 9)]) =
     Inr (Enumerable (SrcArray [VNum (Num 9)]) (src_iterator (SrcArray [VNum (Num 9)]))
            False None None) \<and>
   and_then (concat_enum (range_enum 5 3) (SrcArray [VNum (Num 9)]))
     (\<lambda>R. Inr (count R, seekable R, elementAt R (count (range_enum 5 3)))) =
   Inr (4, True, Inr (VNum (Num 9)))"
proof -
  let ?A = "range_enum 5 3" and ?s = "SrcArray [VNum (Num 9)]"
  let ?B = "Enumerable ?s (src_iterator ?s) False None None"
  have fb: "from_enum ?s = Inr ?B"
    by (simp add: from_enum_def constructor_def ensureIterable_def)
  obtain R where R: "concat_enum ?A ?s = Inr R"
    using concat_ok[OF fb] by (auto simp: ensureIterable_def)
  have h: "handle ?A" by (rule h_range) simp
  have s: "seekable ?A" by (simp add: range_enum_def seekable_resolved)
  have cA: "count ?A = 3" by (simp add: range_enum_def count_resolved)
  have cB: "count ?B = 1" "seekable ?B" "elementAt ?B 0 = Inr (VNum (Num 9))"
    by (simp_all add: count_def seekable_def elementAt_def index_of_def)
  show ?thesis
    using concat_count_seekable_elementAt[OF R fb] h s cA cB R fb by simp
qed

text \<open>
  Claim C5, at an input where the code leaves it. Over the array-like object
  \<open>(undefined, 5)\<close> and \<open>n = 3\<close> the lookup of \<open>take(3)\<close> finds no value at index 0
  and the concatenation asks the second operand at index \<open>0 - 2\<close>. The lookup of
  \<open>skip(3)\<close> adds 3 to any index, with no lower bound, and answers with entry 1 of the
  source where the lookups over an array, \<open>range\<close> and \<open>repeat\<close> answer a negative
  index with no value: the result is \<open>[5, 5]\<close> where \<open>toArray\<close> of the handle is
  \<open>[undefined, 5]\<close>.
\<close>

theorem take_concat_skip_arraylike:
  "and_then (from_enum (SrcArrayLike [VUndefined, VNum (Num 5)]))
     (\<lambda>H. and_then (concat_enum (take_enum H 3) (SrcEnumerable (skip H 3))) toArray) =
     Inr [VNum (Num 5), VNum (Num 5)] \<and>
   and_then (from_enum (SrcArrayLike [VUndefined, VNum (Num 5)])) toArray =
     Inr [VUndefined, VNum (Num 5)] \<and>
   and_then (from_enum (SrcArrayLike [VUndefined, VNum (Num 5)]))
     (\<lambda>H. Inr (tryGetAt (take_enum H 3) 0, count (take_enum H 3), tryGetAt (skip H 3) (- 2))) =
     Inr (None, 2, Some (VNum (Num 5)))"
  by code_simp

text \<open>
  Claim C8 as stated fails for \<open>stats\<close>, \<open>min\<close> and \<open>max\<close>: they compare the elements
  as they are and return them. Over \<open>["b", "a"]\<close>, two elements that \<open>_toNumber\<close> turns
  into not-a-number, \<open>min\<close> is \<open>"a"\<close> and \<open>max\<close> is \<open>"b"\<close>.
\<close>

theorem min_not_coerced:
  "toNumber (VStr ''a'') = NaN \<and> toNumber (VStr ''b'') = NaN \<and>
   and_then (from_enum (SrcArray [VStr ''b'', VStr ''a''])) (\<lambda>h. min_enum (\<lambda>s. NaN) h Missing) =
     Inr (VStr ''a'') \<and>
   and_then (from_enum (SrcArray [VStr ''b'', VStr ''a''])) (\<lambda>h. max_enum (\<lambda>s. NaN) h Missing) =
     Inr (VStr ''b'') \<and>
   and_then (from_enum (SrcArray [VStr ''b'', VStr ''a''])) (\<lambda>h. stats (\<lambda>s. NaN) h Missing) =
     Inr (Agg 2 (VStr ''a'') (VStr ''b''))"
  by code_simp

text \<open>
  Claim C8, amended. \<open>sum\<close> and \<open>sumAndCount\<close> turn every element that is not a
  number into not-a-number and add the elements so turned with the host's \<open>+\<close>, first
  to last, so the sum is not-a-number when there is such an element; they count the
  items. \<open>stats\<close>, called without a comparer or with a function, never throws and
  counts the items; \<open>min\<close> and \<open>max\<close> are then its minimum and maximum, which over a
  sequence with items are items of the sequence themselves; and when the order of the
  comparer that \<open>stats\<close> calls is irreflexive and transitive on the items, none of
  them \<open>undefined\<close>, no item is below the minimum and none above the maximum. Over a
  sequence with no items \<open>stats\<close> is \<open>{count: 0, min: undefined, max: undefined}\<close> and
  \<open>sum\<close>, \<open>min\<close> and \<open>max\<close> are \<open>undefined\<close>.
\<close>

theorem aggregates:
  assumes c: "c = (case comparer of Fn f \<Rightarrow> f | _ \<Rightarrow> defaultComparer s2n)"
  shows
  "sumAndCount host_plus h =
     (case iterate h of
        [] \<Rightarrow> SumAgg (Num 0) 0
      | x # rest \<Rightarrow>
          SumAgg (foldl (num_add host_plus) (toNumber x) (map toNumber rest))
            (int (length (iterate h)))) \<and>
   sum_enum host_plus h =
     (case iterate h of
        [] \<Rightarrow> VUndefined
      | x # rest \<Rightarrow> VNum (foldl (num_add host_plus) (toNumber x) (map toNumber rest))) \<and>
   ((\<exists>v\<in>set (iterate h). toNumber v = NaN) \<longrightarrow> sum_enum host_plus h = VNum NaN) \<and>
   (comparer \<noteq> NotFunction \<longrightarrow>
      (\<exists>st. stats s2n h comparer = Inr st \<and>
            agg_count st = int (length (iterate h)) \<and>
            min_enum s2n h comparer = Inr (if iterate h = [] then VUndefined else agg_min st) \<and>
            max_enum s2n h comparer = Inr (if iterate h = [] then VUndefined else agg_max st) \<and>
            (iterate h \<noteq> [] \<longrightarrow>
               agg_min st \<in> set (iterate h) \<and> agg_max st \<in> set (iterate h)) \<and>
            (VUndefined \<notin> set (iterate h) \<and>
             (\<forall>x\<in>set (iterate h). \<not> c x x < 0) \<and>
             (\<forall>x\<in>set (iterate h). \<forall>y\<in>set (iterate h). \<forall>z\<in>set (iterate h).
                c x y < 0 \<and> c y z < 0 \<longrightarrow> c x z < 0) \<longrightarrow>
             (\<forall>x\<in>set (iterate h). \<not> c x (agg_min st) < 0)) \<and>
            (VUndefined \<notin> set (iterate h) \<and>
             (\<forall>x\<in>set (iterate h). \<not> c x x > 0) \<and>
             (\<forall>x\<in>set (iterate h). \<forall>y\<in>set (iterate h). \<forall>z\<in>set (iterate h).
                c x y > 0 \<and> c y z > 0 \<longrightarrow> c x z > 0) \<longrightarrow>
             (\<forall>x\<in>set (iterate h). \<not> c x (agg_max st) > 0)))) \<and>
   (iterate h = [] \<longrightarrow>
      stats s2n h Missing = Inr (Agg 0 VUndefined VUndefined) \<and>
      sum_enum host_plus h = VUndefined \<and>
      min_enum s2n h Missing = Inr VUndefined \<and>
      max_enum s2n h Missing = Inr VUndefined)"
proof -
  let ?xs = "iterate h"
  let ?st = "stats_loop c (Agg 0 VUndefined VUndefined) ?xs"
  have sc: "sumAndCount host_plus h =
     (case ?xs of
        [] \<Rightarrow> SumAgg (Num 0) 0
      | x # rest \<Rightarrow>
          SumAgg (foldl (num_add host_plus) (toNumber x) (map toNumber rest)) (int (length ?xs)))"
    by (cases ?xs) (simp_all add: sumAndCount_def sum_loop_started)
  have se: "sum_enum host_plus h =
     (case ?xs of
        [] \<Rightarrow> VUndefined
      | x # rest \<Rightarrow> VNum (foldl (num_add host_plus) (toNumber x) (map toNumber rest)))"
    unfolding sum_enum_def sc by (cases ?xs) (simp_all add: Let_def)
  have nan: "sum_enum host_plus h = VNum NaN" if "\<exists>v\<in>set ?xs. toNumber v = NaN"
  proof -
    have "?xs \<noteq> []" using that by auto
    then obtain x rest where xs: "?xs = x # rest"
      by (cases ?xs) auto
    have "NaN \<in> set (map toNumber (x # rest))"
      using that xs by force
    then have "foldl (num_add host_plus) (toNumber x) (map toNumber rest) = NaN"
      by (auto simp: foldl_num_add_absorbs)
    then show ?thesis
      by (simp add: se xs)
  qed
  have st: "stats s2n h comparer = Inr ?st" if "comparer \<noteq> NotFunction"
    using that c by (cases comparer) (simp_all add: stats_def)
  have cnt: "agg_count ?st = int (length ?xs)"
    using stats_loop_facts[of c "Agg 0 VUndefined VUndefined" ?xs] by simp
  have mn: "min_enum s2n h comparer = Inr (if ?xs = [] then VUndefined else agg_min ?st)"
    and mx: "max_enum s2n h comparer = Inr (if ?xs = [] then VUndefined else agg_max ?st)"
    if "comparer \<noteq> NotFunction"
    using st[OF that] cnt by (simp_all add: min_enum_def max_enum_def)
  have mem: "agg_min ?st \<in> set ?xs \<and> agg_max ?st \<in> set ?xs" if "?xs \<noteq> []"
    using stats_loop_order(1,2)[OF that, of c] by simp
  have least: "\<forall>x\<in>set ?xs. \<not> c x (agg_min ?st) < 0"
    if "VUndefined \<notin> set ?xs \<and> (\<forall>x\<in>set ?xs. \<not> c x x < 0) \<and>
        (\<forall>x\<in>set ?xs. \<forall>y\<in>set ?xs. \<forall>z\<in>set ?xs. c x y < 0 \<and> c y z < 0 \<longrightarrow> c x z < 0)"
  proof (cases "?xs = []")
    case True
    then show ?thesis by simp
  next
    case False
    show ?thesis
      by (rule stats_loop_order(3)[OF False that[THEN conjunct1]
            that[THEN conjunct2, THEN conjunct1] that[THEN conjunct2, THEN conjunct2]])
  qed
  have greatest: "\<forall>x\<in>set ?xs. \<not> c x (agg_max ?st) > 0"
    if "VUndefined \<notin> set ?xs \<and> (\<forall>x\<in>set ?xs. \<not> c x x > 0) \<and>
        (\<forall>x\<in>set ?xs. \<forall>y\<in>set ?xs. \<forall>z\<in>set ?xs. c x y > 0 \<and> c y z > 0 \<longrightarrow> c x z > 0)"
  proof (cases "?xs = []")
    case True
    then show ?thesis by simp
  next
    case False
    show ?thesis
      by (rule stats_loop_order(4)[OF False that[THEN conjunct1]
            that[THEN conjunct2, THEN conjunct1] that[THEN conjunct2, THEN conjunct2]])
  qed
  have empty: "stats s2n h Missing = Inr (Agg 0 VUndefined VUndefined) \<and>
      sum_enum host_plus h = VUndefined \<and>
      min_enum s2n h Missing = Inr VUndefined \<and>
      max_enum s2n h Missing = Inr VUndefined"
    if "?xs = []"
    using that by (simp add: stats_def min_enum_def max_enum_def se)
  have all: "\<exists>st. stats s2n h comparer = Inr st \<and>
            agg_count st = int (length ?xs) \<and>
            min_enum s2n h comparer = Inr (if ?xs = [] then VUndefined else agg_min st) \<and>
            max_enum s2n h comparer = Inr (if ?xs = [] then VUndefined else agg_max st) \<and>
            (?xs \<noteq> [] \<longrightarrow> agg_min st \<in> set ?xs \<and> agg_max st \<in> set ?xs) \<and>
            (VUndefined \<notin> set ?xs \<and>
             (\<forall>x\<in>set ?xs. \<not> c x x < 0) \<and>
             (\<forall>x\<in>set ?xs. \<forall>y\<in>set ?xs. \<forall>z\<in>set ?xs.
                c x y < 0 \<and> c y z < 0 \<longrightarrow> c x z < 0) \<longrightarrow>
             (\<forall>x\<in>set ?xs. \<not> c x (agg_min st) < 0)) \<and>
            (VUndefined \<notin> set ?xs \<and>
             (\<forall>x\<in>set ?xs. \<not> c x x > 0) \<and>
             (\<forall>x\<in>set ?xs. \<forall>y\<in>set ?xs. \<forall>z\<in>set ?xs.
                c x y > 0 \<and> c y z > 0 \<longrightarrow> c x z > 0) \<longrightarrow>
             (\<forall>x\<in>set ?xs. \<not> c x (agg_max st) > 0))"
    if nf: "comparer \<noteq> NotFunction"
  proof (intro exI[of _ ?st] conjI impI)
    show "stats s2n h comparer = Inr ?st" by (rule st[OF nf])
    show "agg_count ?st = int (length ?xs)" by (rule cnt)
    show "min_enum s2n h comparer = Inr (if ?xs = [] then VUndefined else agg_min ?st)"
      by (rule mn[OF nf])
    show "max_enum s2n h comparer = Inr (if ?xs = [] then VUndefined else agg_max ?st)"
      by (rule mx[OF nf])
    show "agg_min ?st \<in> set ?xs" if "?xs \<noteq> []" using mem[OF that] by simp
    show "agg_max ?st \<in> set ?xs" if "?xs \<noteq> []" using mem[OF that] by simp
    show "\<forall>x\<in>set ?xs. \<not> c x (agg_min ?st) < 0"
      if "VUndefined \<notin> set ?xs \<and> (\<forall>x\<in>set ?xs. \<not> c x x < 0) \<and>
        (\<forall>x\<in>set ?xs. \<forall>y\<in>set ?xs. \<forall>z\<in>set ?xs. c x y < 0 \<and> c y z < 0 \<longrightarrow> c x z < 0)"
      using that by (rule least)
    show "\<forall>x\<in>set ?xs. \<not> c x (agg_max ?st) > 0"
      if "VUndefined \<notin> set ?xs \<and> (\<forall>x\<in>set ?xs. \<not> c x x > 0) \<and>
        (\<forall>x\<in>set ?xs. \<forall>y\<in>set ?xs. \<forall>z\<in>set ?xs. c x y > 0 \<and> c y z > 0 \<longrightarrow> c x z > 0)"
      using that by (rule greatest)
  qed
  show ?thesis
  proof (intro conjI)
    show "sumAndCount host_plus h =
     (case iterate h of
        [] \<Rightarrow> SumAgg (Num 0) 0
      | x # rest \<Rightarrow>
          SumAgg (foldl (num_add host_plus) (toNumber x) (map toNumber rest))
            (int (length (iterate h))))"
      by (rule sc)
    show "sum_enum host_plus h =
     (case iterate h of
        [] \<Rightarrow> VUndefined
      | x # rest \<Rightarrow> VNum (foldl (num_add host_plus) (toNumber x) (map toNumber rest)))"
      by (rule se)
    show "(\<exists>v\<in>set (iterate h). toNumber v = NaN) \<longrightarrow> sum_enum host_plus h = VNum NaN"
      using nan by (rule impI)
  next
    show "comparer \<noteq> NotFunction \<longrightarrow>
      (\<exists>st. stats s2n h comparer = Inr st \<and>
            agg_count st = int (length (iterate h)) \<and>
            min_enum s2n h comparer = Inr (if iterate h = [] then VUndefined else agg_min st) \<and>
            max_enum s2n h comparer = Inr (if iterate h = [] then VUndefined else agg_max st) \<and>
            (iterate h \<noteq> [] \<longrightarrow>
               agg_min st \<in> set (iterate h) \<and> agg_max st \<in> set (iterate h)) \<and>
            (VUndefined \<notin> set (iterate h) \<and>
             (\<forall>x\<in>set (iterate h). \<not> c x x < 0) \<and>
             (\<forall>x\<in>set (iterate h). \<forall>y\<in>set (iterate h). \<forall>z\<in>set (iterate h).
                c x y < 0 \<and> c y z < 0 \<longrightarrow> c x z < 0) \<longrightarrow>
             (\<forall>x\<in>set (iterate h). \<not> c x (agg_min st) < 0)) \<and>
            (VUndefined \<notin> set (iterate h) \<and>
             (\<forall>x\<in>set (iterate h). \<not> c x x > 0) \<and>
             (\<forall>x\<in>set (iterate h). \<forall>y\<in>set (iterate h). \<forall>z\<in>set (iterate h).
                c x y > 0 \<and> c y z > 0 \<longrightarrow> c x z > 0) \<longrightarrow>
             (\<forall>x\<in>set (iterate h). \<not> c x (agg_max st) > 0)))"
      using all by (rule impI)
    show "iterate h = [] \<longrightarrow>
      stats s2n h Missing = Inr (Agg 0 VUndefined VUndefined) \<and>
      sum_enum host_plus h = VUndefined \<and>
      min_enum s2n h Missing = Inr VUndefined \<and>
      max_enum s2n h Missing = Inr VUndefined"
      using empty by (rule impI)
  qed
qed

text \<open>
  The amended claim at \<open>[3, 1, 2]\<close> with the default comparer, where \<open>stats\<close> is
  \<open>{count: 3, min: 1, max: 3}\<close> and the sum 6 with exact addition, at
  \<open>repeat("x", 2)\<close>, whose sum is not-a-number, and at \<open>empty()\<close>.
\<close>

theorem aggregates_witness:
  "(Missing :: comparer arg) \<noteq> NotFunction \<and>
   iterate (Enumerable (SrcArray [VNum (Num 3), VNum (Num 1), VNum (Num 2)])
              (src_iterator (SrcArray [VNum (Num 3), VNum (Num 1), VNum (Num 2)]))
              False None None) = [VNum (Num 3), VNum (Num 1), VNum (Num 2)] \<and>
   VUndefined \<notin> set [VNum (Num 3), VNum (Num 1), VNum (Num 2)] \<and>
   stats (\<lambda>s. NaN)
     (Enumerable (SrcArray [VNum (Num 3), VNum (Num 1), VNum (Num 2)])
        (src_iterator (SrcArray [VNum (Num 3), VNum (Num 1), VNum (Num 2)])) False None None)
     Missing = Inr (Agg 3 (VNum (Num 1)) (VNum (Num 3))) \<and>
   0 \<le> defaultComparer (\<lambda>s. NaN) (VNum (Num 3)) (VNum (Num 1)) \<and>
   0 \<le> defaultComparer (\<lambda>s. NaN) (VNum (Num 2)) (VNum (Num 1)) \<and>
   defaultComparer (\<lambda>s. NaN) (VNum (Num 1)) (VNum (Num 3)) \<le> 0 \<and>
   defaultComparer (\<lambda>s. NaN) (VNum (Num 2)) (VNum (Num 3)) \<le> 0 \<and>
   min_enum (\<lambda>s. NaN)
     (Enumerable (SrcArray [VNum (Num 3), VNum (Num 1), VNum (Num 2)])
        (src_iterator (SrcArray [VNum (Num 3), VNum (Num 1), VNum (Num 2)])) False None None)
     Missing = Inr (VNum (Num 1)) \<and>
   sum_enum (\<lambda>a b. Num (a + b))
     (Enumerable (SrcArray [VNum (Num 3), VNum (Num 1), VNum (Num 2)])
        (src_iterator (SrcArray [VNum (Num 3), VNum (Num 1), VNum (Num 2)])) False None None) =
     VNum (Num 6) \<and>
   (\<exists>v\<in>set (iterate (repeat (VStr ''x'') 2)). toNumber v = NaN) \<and>
   sum_enum (\<lambda>a b. Num (a + b)) (repeat (VStr ''x'') 2) = VNum NaN \<and>
   iterate empty_enum = [] \<and>
   stats (\<lambda>s. NaN) empty_enum Missing = Inr (Agg 0 VUndefined VUndefined) \<and>
   sum_enum (\<lambda>a b. Num (a + b)) empty_enum = VUndefined \<and>
   min_enum (\<lambda>s. NaN) empty_enum Missing = Inr VUndefined \<and>
   max_enum (\<lambda>s. NaN) empty_enum Missing = Inr VUndefined"
proof -
  let ?xs = "[VNum (Num 3), VNum (Num 1), VNum (Num 2)]"
  let ?h = "Enumerable (SrcArray ?xs) (src_iterator (SrcArray ?xs)) False None None"
  let ?c = "defaultComparer (\<lambda>s. NaN)"
  let ?p = "\<lambda>a b. Num (a + b)"
  have c: "?c = (case (Missing :: comparer arg) of Fn f \<Rightarrow> f | _ \<Rightarrow> defaultComparer (\<lambda>s. NaN))"
    by simp
  have nf: "(Missing :: comparer arg) \<noteq> NotFunction" by simp
  have i: "iterate ?h = ?xs" by (simp add: iterate_def)
  have u: "VUndefined \<notin> set ?xs" by simp
  have irr1: "\<forall>x\<in>set ?xs. \<not> ?c x x < 0" by code_simp
  have irr2: "\<forall>x\<in>set ?xs. \<not> ?c x x > 0" by code_simp
  have tr1: "\<forall>x\<in>set ?xs. \<forall>y\<in>set ?xs. \<forall>z\<in>set ?xs. ?c x y < 0 \<and> ?c y z < 0 \<longrightarrow> ?c x z < 0"
    by code_simp
  have tr2: "\<forall>x\<in>set ?xs. \<forall>y\<in>set ?xs. \<forall>z\<in>set ?xs. ?c x y > 0 \<and> ?c y z > 0 \<longrightarrow> ?c x z > 0"
    by code_simp
  have s: "stats (\<lambda>s. NaN) ?h Missing = Inr (Agg 3 (VNum (Num 1)) (VNum (Num 3)))"
    by code_simp
  have r: "iterate (repeat (VStr ''x'') 2) = [VStr ''x'', VStr ''x'']" by code_simp
  have e: "iterate empty_enum = []" by code_simp
  note A = aggregates[OF c, of ?p ?h, unfolded i]
  note st = A[THEN conjunct2, THEN conjunct2, THEN conjunct2, THEN conjunct1, THEN mp, OF nf]
  from st obtain st where
    st1: "stats (\<lambda>s. NaN) ?h Missing = Inr st" and
    mn: "min_enum (\<lambda>s. NaN) ?h Missing = Inr (if ?xs = [] then VUndefined else agg_min st)" and
    least: "VUndefined \<notin> set ?xs \<and> (\<forall>x\<in>set ?xs. \<not> ?c x x < 0) \<and>
        (\<forall>x\<in>set ?xs. \<forall>y\<in>set ?xs. \<forall>z\<in>set ?xs. ?c x y < 0 \<and> ?c y z < 0 \<longrightarrow> ?c x z < 0) \<longrightarrow>
        (\<forall>x\<in>set ?xs. \<not> ?c x (agg_min st) < 0)" and
    greatest: "VUndefined \<notin> set ?xs \<and> (\<forall>x\<in>set ?xs. \<not> ?c x x > 0) \<and>
        (\<forall>x\<in>set ?xs. \<forall>y\<in>set ?xs. \<forall>z\<in>set ?xs. ?c x y > 0 \<and> ?c y z > 0 \<longrightarrow> ?c x z > 0) \<longrightarrow>
        (\<forall>x\<in>set ?xs. \<not> ?c x (agg_max st) > 0)"
    by (elim exE conjE)
  have eq: "st = Agg 3 (VNum (Num 1)) (VNum (Num 3))"
    using st1 s by simp
  have l: "\<forall>x\<in>set ?xs. \<not> ?c x (VNum (Num 1)) < 0"
    using least[THEN mp, OF conjI[OF u conjI[OF irr1 tr1]]] by (simp only: eq stats_agg.sel)
  have g: "\<forall>x\<in>set ?xs. \<not> ?c x (VNum (Num 3)) > 0"
    using greatest[THEN mp, OF conjI[OF u conjI[OF irr2 tr2]]] by (simp only: eq stats_agg.sel)
  have m: "min_enum (\<lambda>s. NaN) ?h Missing = Inr (VNum (Num 1))"
    using mn by (simp add: eq)
  have su: "sum_enum ?p ?h = VNum (Num 6)"
    using A[THEN conjunct2, THEN conjunct1] by simp
  note B = aggregates[OF c, of ?p "repeat (VStr ''x'') 2"]
  have x: "\<exists>v\<in>set (iterate (repeat (VStr ''x'') 2)). toNumber v = NaN"
    by (simp add: r)
  have b: "sum_enum ?p (repeat (VStr ''x'') 2) = VNum NaN"
    by (rule B[THEN conjunct2, THEN conjunct2, THEN conjunct1, THEN mp, OF x])
  note D = aggregates[OF c, of ?p empty_enum]
  note d = D[THEN conjunct2, THEN conjunct2, THEN conjunct2, THEN conjunct2, THEN mp, OF e]
  have l3: "0 \<le> ?c (VNum (Num 3)) (VNum (Num 1))" and l2: "0 \<le> ?c (VNum (Num 2)) (VNum (Num 1))"
    using l by (simp_all add: not_less)
  have g1: "?c (VNum (Num 1)) (VNum (Num 3)) \<le> 0" and g2: "?c (VNum (Num 2)) (VNum (Num 3)) \<le> 0"
    using g by (simp_all add: not_less)
  show ?thesis
    by (intro conjI nf i u s l3 l2 g1 g2 m su x b e d[THEN conjunct1]
        d[THEN conjunct2, THEN conjunct1] d[THEN conjunct2, THEN conjunct2, THEN conjunct1]
        d[THEN conjunct2, THEN conjunct2, THEN conjunct2])
qed

text \<open>
  Claim C10 as stated fails when the handle itself comes from \<open>select\<close>: with
  \<open>H = from([10]).select((item, index) => index)\<close>, which is seekable with count 1,
  and the selector \<open>(item, index) => item\<close>, which ignores its index, the lookup of
  \<open>H.select(f)\<close> at 0 is \<open>f(H.elementAt(0)) = undefined\<close> and iterating it yields 0.
\<close>

theorem select_chain_counterexample:
  "and_then (from_enum (SrcArray [VNum (Num 10)]))
     (\<lambda>X. and_then (select X (Fn (\<lambda>item index. index)))
        (\<lambda>H. and_then (select H (Fn (\<lambda>item index. item)))
           (\<lambda>S. Inr (seekable H, count H, elementAt S 0, iterate S)))) =
   Inr (True, 1, Inr VUndefined, [VNum (Num 0)])"
  by code_simp

text \<open>
  Claim C10, amended. The lookup of \<open>H.select(f)\<close> is \<open>f\<close> applied to what the lookup
  of \<open>H\<close> finds, with no index, and throws where that of \<open>H\<close> throws; the item it
  yields at position \<open>i\<close> is \<open>f\<close> applied to the item of \<open>H\<close> and to \<open>i\<close>. Where the
  lookup of \<open>H\<close> at \<open>i\<close> is the item \<open>H\<close> yields at \<open>i\<close>, the two agree exactly when \<open>f\<close>
  gives the same at that item with and without the index.
\<close>

theorem select_lookup_and_iteration:
  assumes "select H (Fn f) = Inr S"
  shows "elementAt S i = (case elementAt H i of Inl e \<Rightarrow> Inl e | Inr x \<Rightarrow> Inr (f x VUndefined)) \<and>
         (handle H \<and> 0 \<le> i \<and> i < count H \<longrightarrow>
            iterate S ! nat i = f (iterate H ! nat i) (VNum (Num i))) \<and>
         (handle H \<and> 0 \<le> i \<and> i < count H \<and> elementAt H i = Inr (iterate H ! nat i) \<longrightarrow>
            (elementAt S i = Inr (iterate S ! nat i) \<longleftrightarrow>
             f (iterate H ! nat i) VUndefined = f (iterate H ! nat i) (VNum (Num i))))"
proof -
  note f = select_facts[OF assms]
  have a: "elementAt S i =
      (case elementAt H i of Inl e \<Rightarrow> Inl e | Inr x \<Rightarrow> Inr (f x VUndefined))"
    using f(4)[of i] by (simp add: elementAt_def tryGetAt_def split: option.splits)
  have b: "iterate S ! nat i = f (iterate H ! nat i) (VNum (Num i))"
    if "handle H" "0 \<le> i" "i < count H"
  proof -
    have "count H = int (length (iterate H))"
      using handle_coherent[OF that(1)] by (simp add: coherent_def)
    then have "nat i < length (iterate H)" using that by simp
    then show ?thesis using that(2) by (simp add: f(2) select_gen_nth)
  qed
  show ?thesis
    using a b by auto
qed

text \<open>
  The amended claim at \<open>range(5, 3)\<close>, index 1 and the selector that returns its index.
\<close>

theorem select_lookup_and_iteration_witness:
  "handle (range_enum 5 3) \<and> (0::int) \<le> 1 \<and> 1 < count (range_enum 5 3) \<and>
   elementAt (range_enum 5 3) 1 = Inr (iterate (range_enum 5 3) ! nat 1) \<and>
   and_then (select (range_enum 5 3) (Fn (\<lambda>item index. index)))
     (\<lambda>S. Inr (elementAt S 1, iterate S ! nat 1)) = Inr (Inr VUndefined, VNum (Num 1))"
proof -
  let ?H = "range_enum 5 3" and ?f = "\<lambda>(item::val) (index::val). index"
  obtain S where S: "select ?H (Fn ?f) = Inr S"
    by (simp add: select_def ensureFunction_def Let_def)
  have h: "handle ?H" by (rule h_range) simp
  have c: "count ?H = 3" by (simp add: range_enum_def count_resolved)
  have i: "iterate ?H = [VNum (Num 5), VNum (Num 6), VNum (Num 7)]"
    by code_simp
  have e: "elementAt ?H 1 = Inr (VNum (Num 6))"
    by code_simp
  show ?thesis
    using select_lookup_and_iteration[OF S, of 1] h c i e S by simp
qed

end
